theory Spec2Isabelle
  imports Complex_Main "HOL-Library.Word" "HOL-Library.Signed_Division"
begin

unbundle bit_operations_syntax

section \<open>Entropy encoding (Huffman) for webp lossless: \<^verbatim>\<open>huffman_encode.c\<close>\<close>

text \<open>
  The development follows \<^verbatim>\<open>src/webp/src/utils/huffman_encode.c\<close>.
  C arrays passed as (pointer, length) are lists; the length of the list is the
  length parameter. \<^verbatim>\<open>uint8_t\<close> values are natural numbers, with the conversion
  \<open>mod 256\<close> written out where the code narrows an \<^verbatim>\<open>int\<close>; \<^verbatim>\<open>uint32_t\<close>
  values are \<open>32 word\<close>; \<^verbatim>\<open>int\<close> values are integers. Failed assertions,
  failed allocations and signed overflow are error results.
\<close>

datatype error = AllocationFailure | AssertionFailure | SignedOverflow

text \<open>
  Modelled from the spec: the constant \<^verbatim>\<open>MAX_ALLOWED_CODE_LENGTH\<close> of
  \<^verbatim>\<open>webp/format_constants.h\<close>, which is not among the sources; code lengths are
  capped at 15.
\<close>

definition MAX_ALLOWED_CODE_LENGTH :: nat where
  "MAX_ALLOWED_CODE_LENGTH = 15"

text \<open>\<^verbatim>\<open>INT_MAX\<close> of \<^verbatim>\<open>limits.h\<close>, for an \<^verbatim>\<open>int\<close> of 32 bits.\<close>

definition INT_MAX :: int where
  "INT_MAX = 2147483647"

text \<open>
  Modelled from the spec: the struct \<^verbatim>\<open>HuffmanTreeCode\<close> of \<^verbatim>\<open>huffman_encode.h\<close>, the
  number of symbols and the arrays \<^verbatim>\<open>code_lengths\<close> and \<^verbatim>\<open>codes\<close>. The functions
  read and write the first \<^verbatim>\<open>num_symbols\<close> entries of the arrays.
\<close>

record HuffmanTreeCode =
  num_symbols :: nat
  code_lengths :: "nat list"
  codes :: "32 word list"

definition tree_lengths :: "HuffmanTreeCode \<Rightarrow> nat list" where
  "tree_lengths tree = take (num_symbols tree) (code_lengths tree)"

subsection \<open>Coding of the Huffman tree values\<close>

text \<open>
  Modelled from the spec: the struct \<^verbatim>\<open>HuffmanTreeToken\<close> of \<^verbatim>\<open>huffman_encode.h\<close>,
  a pair of a code in 0..18 and its extra bits. The token buffer is the list of the
  tokens written so far; the cursor \<^verbatim>\<open>tokens\<close> is its length.
\<close>

record HuffmanTreeToken =
  code :: nat
  extra_bits :: nat

function CodeRepeatedValues_loop :: "int \<Rightarrow> HuffmanTreeToken list \<Rightarrow> nat \<Rightarrow> HuffmanTreeToken list" where
  "CodeRepeatedValues_loop repetitions tokens val =
     (if repetitions \<ge> 1 then
        (if repetitions < 3 then
           tokens @ replicate (nat repetitions) \<lparr>code = val, extra_bits = 0\<rparr>
         else if repetitions < 7 then
           tokens @ [\<lparr>code = 16, extra_bits = nat (repetitions - 3)\<rparr>]
         else
           CodeRepeatedValues_loop (repetitions - 6)
             (tokens @ [\<lparr>code = 16, extra_bits = 3\<rparr>]) val)
      else tokens)"
  by pat_completeness auto
termination
  by (relation "measure (\<lambda>(repetitions, tokens, val). nat repetitions)") auto

definition CodeRepeatedValues ::
  "int \<Rightarrow> HuffmanTreeToken list \<Rightarrow> nat \<Rightarrow> nat \<Rightarrow> error + HuffmanTreeToken list" where
  "CodeRepeatedValues repetitions tokens val prev_value =
     (if \<not> val \<le> MAX_ALLOWED_CODE_LENGTH then Inl AssertionFailure
      else if val \<noteq> prev_value then
        Inr (CodeRepeatedValues_loop (repetitions - 1)
               (tokens @ [\<lparr>code = val, extra_bits = 0\<rparr>]) val)
      else Inr (CodeRepeatedValues_loop repetitions tokens val))"

function CodeRepeatedZeros :: "int \<Rightarrow> HuffmanTreeToken list \<Rightarrow> HuffmanTreeToken list" where
  "CodeRepeatedZeros repetitions tokens =
     (if repetitions \<ge> 1 then
        (if repetitions < 3 then
           tokens @ replicate (nat repetitions) \<lparr>code = 0, extra_bits = 0\<rparr>
         else if repetitions < 11 then
           tokens @ [\<lparr>code = 17, extra_bits = nat (repetitions - 3)\<rparr>]
         else if repetitions < 139 then
           tokens @ [\<lparr>code = 18, extra_bits = nat (repetitions - 11)\<rparr>]
         else
           CodeRepeatedZeros (repetitions - 138)
             (tokens @ [\<lparr>code = 18, extra_bits = 0x7f\<rparr>]))
      else tokens)"
  by pat_completeness auto
termination
  by (relation "measure (\<lambda>(repetitions, tokens). nat repetitions)") auto

text \<open>The inner scan \<^verbatim>\<open>while (k < depth_size && code_lengths[k] == value) ++k\<close>.\<close>

function run_end :: "nat list \<Rightarrow> nat \<Rightarrow> nat \<Rightarrow> nat" where
  "run_end lengths val k =
     (if k < length lengths \<and> lengths ! k = val
      then run_end lengths val (k + 1) else k)"
  by pat_completeness auto
termination
  by (relation "measure (\<lambda>(lengths, val, k). length lengths - k)") auto

declare run_end.simps [simp del]

function VP8LCreateCompressedHuffmanTree_loop ::
  "nat list \<Rightarrow> int \<Rightarrow> nat \<Rightarrow> nat \<Rightarrow> HuffmanTreeToken list \<Rightarrow> error + HuffmanTreeToken list" where
  "VP8LCreateCompressedHuffmanTree_loop lengths max_tokens i prev_value tokens =
     (if i < length lengths then
        (let val = lengths ! i;
             k = run_end lengths val (i + 1);
             runs = int k - int i
         in if val = 0 then
              (let tokens' = CodeRepeatedZeros runs tokens
               in if \<not> int (length tokens') \<le> max_tokens then Inl AssertionFailure
                  else VP8LCreateCompressedHuffmanTree_loop lengths max_tokens
                         (i + nat runs) prev_value tokens')
            else
              (case CodeRepeatedValues runs tokens val prev_value of
                 Inl e \<Rightarrow> Inl e
               | Inr tokens' \<Rightarrow>
                   if \<not> int (length tokens') \<le> max_tokens then Inl AssertionFailure
                   else VP8LCreateCompressedHuffmanTree_loop lengths max_tokens
                          (i + nat runs) val tokens'))
      else Inr tokens)"
  by pat_completeness auto
termination
proof -
  have ge: "k \<le> run_end lengths val k" for lengths val k
    by (induction lengths val k rule: run_end.induct)
       (subst run_end.simps, auto)
  have "i < i + nat (int (run_end lengths val (i + 1)) - int i)" for lengths val i
    using ge [of "i + 1" lengths val] by simp
  then show ?thesis
    by (relation "measure (\<lambda>(lengths, max_tokens, i, prev_value, tokens).
                    length lengths - i)") (auto intro: diff_less_mono2)
qed

declare CodeRepeatedValues_loop.simps [simp del]
declare CodeRepeatedZeros.simps [simp del]
declare VP8LCreateCompressedHuffmanTree_loop.simps [simp del]

text \<open>
  \<^verbatim>\<open>VP8LCreateCompressedHuffmanTree\<close>: the tokens written to the buffer; the C function
  returns their number. It reads \<^verbatim>\<open>tree->code_lengths[0..num_symbols)\<close> only.
  \<^verbatim>\<open>prev_value\<close> starts at 8, "the initial value for rle".
\<close>

definition VP8LCreateCompressedHuffmanTree ::
  "HuffmanTreeCode \<Rightarrow> int \<Rightarrow> error + HuffmanTreeToken list" where
  "VP8LCreateCompressedHuffmanTree tree max_tokens =
     VP8LCreateCompressedHuffmanTree_loop (tree_lengths tree) max_tokens 0 8 []"

text \<open>
  Modelled from the spec: the expansion of a token sequence into code lengths
  (the reader of the token stream is not among the sources). Codes 0..15 are literal
  lengths; 16 repeats the previously emitted non-zero length 3..6 times; 17 and 18
  repeat length 0 (3..10 and 11..138 times). \<open>prev\<close> is the previously emitted
  non-zero length, \<open>None\<close> when there is none yet.
\<close>

definition expand_token :: "nat option \<Rightarrow> HuffmanTreeToken \<Rightarrow> (nat option \<times> nat list) option" where
  "expand_token prev t =
     (if code t < 16 then
        (if extra_bits t = 0 then Some (if code t \<noteq> 0 then Some (code t) else prev, [code t]) else None)
      else if code t = 16 then
        (case prev of
           None \<Rightarrow> None
         | Some p \<Rightarrow> if extra_bits t \<le> 3 then Some (prev, replicate (3 + extra_bits t) p) else None)
      else if code t = 17 then
        (if extra_bits t \<le> 7 then Some (prev, replicate (3 + extra_bits t) 0) else None)
      else if code t = 18 then
        (if extra_bits t \<le> 127 then Some (prev, replicate (11 + extra_bits t) 0) else None)
      else None)"

fun decode_tokens :: "nat option \<Rightarrow> HuffmanTreeToken list \<Rightarrow> (nat option \<times> nat list) option" where
  "decode_tokens prev [] = Some (prev, [])"
| "decode_tokens prev (t # ts) =
     (case expand_token prev t of
        None \<Rightarrow> None
      | Some (prev', xs) \<Rightarrow>
          (case decode_tokens prev' ts of
             None \<Rightarrow> None
           | Some (prev'', ys) \<Rightarrow> Some (prev'', xs @ ys)))"

definition token_repeats :: "HuffmanTreeToken \<Rightarrow> nat" where
  "token_repeats t =
     (if code t = 16 then 3 + extra_bits t
      else if code t = 17 then 3 + extra_bits t
      else if code t = 18 then 11 + extra_bits t
      else 1)"

definition DecodeTokens :: "nat option \<Rightarrow> HuffmanTreeToken list \<Rightarrow> nat list option" where
  "DecodeTokens prev tokens = map_option snd (decode_tokens prev tokens)"

subsection \<open>Canonical codes from bit depths\<close>

text \<open>Pre-reversed 4-bit values.\<close>

definition kReversedBits :: "32 word list" where
  "kReversedBits = [0x0, 0x8, 0x4, 0xc, 0x2, 0xa, 0x6, 0xe,
                    0x1, 0x9, 0x5, 0xd, 0x3, 0xb, 0x7, 0xf]"

function ReverseBits_loop :: "int \<Rightarrow> int \<Rightarrow> 32 word \<Rightarrow> 32 word \<Rightarrow> 32 word" where
  "ReverseBits_loop num_bits i bits retval =
     (if i < num_bits then
        ReverseBits_loop num_bits (i + 4) (drop_bit 4 bits)
          (retval OR push_bit (nat (int MAX_ALLOWED_CODE_LENGTH + 1 - (i + 4)))
                       (kReversedBits ! unat (bits AND 0xf)))
      else retval)"
  by pat_completeness auto
termination
  by (relation "measure (\<lambda>(num_bits, i, bits, retval). nat (num_bits - i))") auto

declare ReverseBits_loop.simps [simp del]

definition ReverseBits :: "int \<Rightarrow> 32 word \<Rightarrow> 32 word" where
  "ReverseBits num_bits bits =
     drop_bit (nat (int MAX_ALLOWED_CODE_LENGTH + 1 - num_bits)) (ReverseBits_loop num_bits 0 bits 0)"

text \<open>The first loop of \<^verbatim>\<open>ConvertBitDepthsToSymbols\<close>: \<^verbatim>\<open>++depth_count[code_length]\<close>.\<close>

fun count_depths :: "nat list \<Rightarrow> int list \<Rightarrow> error + int list" where
  "count_depths [] depth_count = Inr depth_count"
| "count_depths (code_length # rest) depth_count =
     (if \<not> code_length \<le> MAX_ALLOWED_CODE_LENGTH then Inl AssertionFailure
      else count_depths rest (depth_count[code_length := depth_count ! code_length + 1]))"

text \<open>The second loop: \<^verbatim>\<open>code = (code + depth_count[i - 1]) << 1; next_code[i] = code\<close>.\<close>

function fill_next_code :: "int list \<Rightarrow> nat \<Rightarrow> 32 word \<Rightarrow> 32 word list \<Rightarrow> 32 word list" where
  "fill_next_code depth_count i code' next_code =
     (if i \<le> MAX_ALLOWED_CODE_LENGTH then
        (let code'' = push_bit 1 (code' + word_of_int (depth_count ! (i - 1)))
         in fill_next_code depth_count (i + 1) code'' (next_code[i := code'']))
      else next_code)"
  by pat_completeness auto
termination
  by (relation "measure (\<lambda>(depth_count, i, code', next_code). MAX_ALLOWED_CODE_LENGTH + 1 - i)") auto

declare fill_next_code.simps [simp del]

text \<open>
  The third loop: \<^verbatim>\<open>codes[i] = ReverseBits(code_length, next_code[code_length]++)\<close>.
  \<open>assign_codes\<close> is the loop; \<open>unreversed_codes\<close> is the same loop without the call of
  \<^verbatim>\<open>ReverseBits\<close>, the values the code passes to it.
\<close>

fun assign_codes :: "nat list \<Rightarrow> 32 word list \<Rightarrow> 32 word list" where
  "assign_codes [] next_code = []"
| "assign_codes (code_length # rest) next_code =
     ReverseBits (int code_length) (next_code ! code_length)
       # assign_codes rest (next_code[code_length := next_code ! code_length + 1])"

fun unreversed_codes :: "nat list \<Rightarrow> 32 word list \<Rightarrow> 32 word list" where
  "unreversed_codes [] next_code = []"
| "unreversed_codes (code_length # rest) next_code =
     next_code ! code_length
       # unreversed_codes rest (next_code[code_length := next_code ! code_length + 1])"

definition initial_next_code :: "nat list \<Rightarrow> error + 32 word list" where
  "initial_next_code lengths =
     (case count_depths lengths (replicate (MAX_ALLOWED_CODE_LENGTH + 1) 0) of
        Inl e \<Rightarrow> Inl e
      | Inr depth_count \<Rightarrow>
          Inr (fill_next_code (depth_count[0 := 0]) 1 0
                 ((replicate (MAX_ALLOWED_CODE_LENGTH + 1) 0)[0 := 0])))"

definition ConvertBitDepthsToSymbols :: "HuffmanTreeCode \<Rightarrow> error + HuffmanTreeCode" where
  "ConvertBitDepthsToSymbols tree =
     (case initial_next_code (tree_lengths tree) of
        Inl e \<Rightarrow> Inl e
      | Inr next_code \<Rightarrow>
          Inr (tree\<lparr>codes :=
                 assign_codes (tree_lengths tree) next_code
                   @ drop (num_symbols tree) (codes tree)\<rparr>))"

text \<open>The values \<^verbatim>\<open>next_code[code_length]++\<close> of the third loop, before their reversal.\<close>

definition codes_before_reversal :: "HuffmanTreeCode \<Rightarrow> error + 32 word list" where
  "codes_before_reversal tree =
     (case initial_next_code (tree_lengths tree) of
        Inl e \<Rightarrow> Inl e
      | Inr next_code \<Rightarrow>
          Inr (unreversed_codes (tree_lengths tree) next_code))"

text \<open>
  For the statements about the canonical code: the number of symbols of each non-zero length
  (\<^verbatim>\<open>depth_count\<close> after \<^verbatim>\<open>depth_count[0] = 0\<close>), and the recurrence of \<^verbatim>\<open>next_code\<close>
  over the natural numbers, without the wrap-around of \<^verbatim>\<open>uint32_t\<close>.
\<close>

definition used_count :: "nat list \<Rightarrow> nat \<Rightarrow> nat" where
  "used_count lengths l = (if l = 0 then 0 else count_list lengths l)"

fun first_code :: "nat list \<Rightarrow> nat \<Rightarrow> nat" where
  "first_code lengths 0 = 0"
| "first_code lengths (Suc l) = 2 * (first_code lengths l + used_count lengths l)"

text \<open>The value of symbol \<open>i\<close> before its reversal.\<close>

definition code_before_reversal :: "HuffmanTreeCode \<Rightarrow> nat \<Rightarrow> error + 32 word" where
  "code_before_reversal tree i =
     (case codes_before_reversal tree of Inl e \<Rightarrow> Inl e | Inr pre \<Rightarrow> Inr (pre ! i))"

subsection \<open>Util function to optimize the symbol map for RLE coding\<close>

text \<open>
  Arithmetic on \<^verbatim>\<open>int\<close>: a sum or a difference beyond the range of \<^verbatim>\<open>int\<close> is an error,
  as is \<^verbatim>\<open>abs\<close> of the least \<^verbatim>\<open>int\<close>, whose result cannot be represented.
\<close>

definition int_add :: "int \<Rightarrow> int \<Rightarrow> error + int" where
  "int_add a b =
     (if a + b > INT_MAX \<or> a + b < - INT_MAX - 1 then Inl SignedOverflow else Inr (a + b))"

definition int_sub :: "int \<Rightarrow> int \<Rightarrow> error + int" where
  "int_sub a b =
     (if a - b > INT_MAX \<or> a - b < - INT_MAX - 1 then Inl SignedOverflow else Inr (a - b))"

definition int_abs :: "int \<Rightarrow> error + int" where
  "int_abs a = (if a = - INT_MAX - 1 then Inl SignedOverflow else Inr \<bar>a\<bar>)"

text \<open>Heuristics for selecting the stride ranges to collapse.\<close>

definition ValuesShouldBeCollapsedToStrideAverage :: "int \<Rightarrow> int \<Rightarrow> error + bool" where
  "ValuesShouldBeCollapsedToStrideAverage a b =
     (case int_sub a b of
        Inl e \<Rightarrow> Inl e
      | Inr d \<Rightarrow> (case int_abs d of Inl e \<Rightarrow> Inl e | Inr m \<Rightarrow> Inr (m < 4)))"

text \<open>
  Step 1 of \<^verbatim>\<open>OptimizeHuffmanForRle\<close>: the length without trailing zeros; 0 when all
  counts are zero.
\<close>

fun trim_length :: "int list \<Rightarrow> nat \<Rightarrow> nat" where
  "trim_length counts 0 = 0"
| "trim_length counts (Suc n) = (if counts ! n \<noteq> 0 then Suc n else trim_length counts n)"

text \<open>
  The loops \<^verbatim>\<open>for (k = 0; k < stride; ++k) a[i - k - 1] = v\<close>. The index is a natural
  number: the loops run with \<open>stride \<le> i\<close> only.
\<close>

function fill_back :: "'a list \<Rightarrow> nat \<Rightarrow> nat \<Rightarrow> nat \<Rightarrow> 'a \<Rightarrow> 'a list" where
  "fill_back a i stride k v =
     (if k < stride then fill_back (a[i - k - 1 := v]) i stride (k + 1) v else a)"
  by pat_completeness auto
termination
  by (relation "measure (\<lambda>(a, i, stride, k, v). stride - k)") auto

declare fill_back.simps [simp del]

text \<open>
  Step 2: mark any sequence of 0's that is longer than 5, and any sequence of non-0's that
  is longer than 7, as \<^verbatim>\<open>good_for_rle\<close>.
\<close>

function mark_good_for_rle ::
  "int list \<Rightarrow> nat \<Rightarrow> nat \<Rightarrow> int \<Rightarrow> nat \<Rightarrow> nat list \<Rightarrow> nat list" where
  "mark_good_for_rle counts len i symbol stride good_for_rle =
     (if i < len + 1 then
        (if i = len \<or> counts ! i \<noteq> symbol then
           mark_good_for_rle counts len (i + 1)
             (if i \<noteq> len then counts ! i else symbol) 1
             (if (symbol = 0 \<and> stride \<ge> 5) \<or> (symbol \<noteq> 0 \<and> stride \<ge> 7)
              then fill_back good_for_rle i stride 0 1 else good_for_rle)
         else mark_good_for_rle counts len (i + 1) symbol (stride + 1) good_for_rle)
      else good_for_rle)"
  by pat_completeness auto
termination
  by (relation "measure (\<lambda>(counts, len, i, symbol, stride, good_for_rle). len + 1 - i)") auto

declare mark_good_for_rle.simps [simp del]

text \<open>
  Step 3. The state of the loop is \<open>(i, stride, limit, sum, counts)\<close>. A stride ends at \<open>i\<close>
  under \<open>stride_ends\<close>, whose disjunction is evaluated from the left; it is collapsed under
  \<open>stride_collapses\<close>, to the value \<open>stride_count\<close>. \<^verbatim>\<open>/\<close> on \<^verbatim>\<open>int\<close> truncates: \<open>sdiv\<close>;
  the divisors are a stride of at least 3 and the constant 4.
\<close>

definition stride_ends :: "nat list \<Rightarrow> nat \<Rightarrow> nat \<Rightarrow> int \<Rightarrow> int list \<Rightarrow> error + bool" where
  "stride_ends good_for_rle len i limit' counts =
     (if i = len \<or> good_for_rle ! i \<noteq> 0 \<or> (i \<noteq> 0 \<and> good_for_rle ! (i - 1) \<noteq> 0) then Inr True
      else (case ValuesShouldBeCollapsedToStrideAverage (counts ! i) limit' of
              Inl e \<Rightarrow> Inl e
            | Inr b \<Rightarrow> Inr (\<not> b)))"

definition stride_collapses :: "int \<Rightarrow> int \<Rightarrow> bool" where
  "stride_collapses stride stride_sum = (stride \<ge> 4 \<or> (stride \<ge> 3 \<and> stride_sum = 0))"

text \<open>The rounded mean \<^verbatim>\<open>(sum + stride / 2) / stride\<close>.\<close>

definition rounded_mean :: "int \<Rightarrow> int \<Rightarrow> error + int" where
  "rounded_mean stride stride_sum =
     (case int_add stride_sum (stride sdiv 2) of
        Inl e \<Rightarrow> Inl e
      | Inr t \<Rightarrow> Inr (t sdiv stride))"

definition stride_count :: "int \<Rightarrow> int \<Rightarrow> error + int" where
  "stride_count stride stride_sum =
     (case rounded_mean stride stride_sum of
        Inl e \<Rightarrow> Inl e
      | Inr count1 \<Rightarrow>
          (let count2 = (if count1 < 1 then 1 else count1)
           in Inr (if stride_sum = 0 then 0 else count2)))"

text \<open>
  The limit after the end of a stride:
  \<^verbatim>\<open>(counts[i] + counts[i + 1] + counts[i + 2] + counts[i + 3] + 2) / 4\<close> when
  \<^verbatim>\<open>i < length - 3\<close>, the sum taken from the left.
\<close>

fun int_adds :: "int \<Rightarrow> int list \<Rightarrow> error + int" where
  "int_adds a [] = Inr a"
| "int_adds a (b # bs) = (case int_add a b of Inl e \<Rightarrow> Inl e | Inr c \<Rightarrow> int_adds c bs)"

definition next_limit :: "nat \<Rightarrow> nat \<Rightarrow> int list \<Rightarrow> error + int" where
  "next_limit len i counts =
     (if int i < int len - 3 then
        (case int_adds (counts ! i) [counts ! (i + 1), counts ! (i + 2), counts ! (i + 3), 2] of
           Inl e \<Rightarrow> Inl e
         | Inr t \<Rightarrow> Inr (t sdiv 4))
      else if i < len then Inr (counts ! i)
      else Inr 0)"

text \<open>
  One round of the loop of step 3, in the order of the code: the test of the end of the
  stride, the collapse, the new limit, then \<^verbatim>\<open>++stride\<close>, \<^verbatim>\<open>sum += counts[i]\<close> and the limit
  of a stride of at least 4. \<^verbatim>\<open>stride\<close> is at most \<^verbatim>\<open>length + 1\<close>.
\<close>

definition collapse_step ::
  "nat list \<Rightarrow> nat \<Rightarrow> nat \<times> int \<times> int \<times> int \<times> int list \<Rightarrow>
   error + nat \<times> int \<times> int \<times> int \<times> int list" where
  "collapse_step good_for_rle len s =
     (case s of (i, stride, limit', stride_sum, counts) \<Rightarrow>
        (case stride_ends good_for_rle len i limit' counts of
           Inl e \<Rightarrow> Inl e
         | Inr ends \<Rightarrow>
        (case (if ends \<and> stride_collapses stride stride_sum
               then (case stride_count stride stride_sum of
                       Inl e \<Rightarrow> Inl e
                     | Inr count \<Rightarrow> Inr (fill_back counts i (nat stride) 0 count))
               else Inr counts) of
           Inl e \<Rightarrow> Inl e
         | Inr counts1 \<Rightarrow>
        (case (if ends then next_limit len i counts1 else Inr limit') of
           Inl e \<Rightarrow> Inl e
         | Inr limit1 \<Rightarrow>
        (let stride1 = (if ends then 0 else stride);
             sum1 = (if ends then 0 else stride_sum);
             stride2 = stride1 + 1
         in (case (if i \<noteq> len then int_add sum1 (counts1 ! i) else Inr sum1) of
               Inl e \<Rightarrow> Inl e
             | Inr sum2 \<Rightarrow>
            (case (if i \<noteq> len \<and> stride2 \<ge> 4 then rounded_mean stride2 sum2 else Inr limit1) of
               Inl e \<Rightarrow> Inl e
             | Inr limit2 \<Rightarrow> Inr (i + 1, stride2, limit2, sum2, counts1))))))))"

function collapse_loop ::
  "nat list \<Rightarrow> nat \<Rightarrow> nat \<times> int \<times> int \<times> int \<times> int list \<Rightarrow> error + int list" where
  "collapse_loop good_for_rle len s =
     (if fst s < len + 1 then
        (case collapse_step good_for_rle len s of
           Inl e \<Rightarrow> Inl e
         | Inr s' \<Rightarrow> collapse_loop good_for_rle len s')
      else Inr (snd (snd (snd (snd s)))))"
  by pat_completeness auto
termination
proof -
  have "fst s' = fst s + 1" if "collapse_step good_for_rle len s = Inr s'"
    for good_for_rle len s s'
    using that
    by (cases s) (auto simp: collapse_step_def Let_def split: sum.splits if_splits)
  then show ?thesis
    by (relation "measure (\<lambda>(good_for_rle, len, s). len + 1 - fst s)") auto
qed

declare collapse_loop.simps [simp del]

text \<open>
  \<^verbatim>\<open>OptimizeHuffmanForRle\<close>: the counts after the call, or the failure of \<^verbatim>\<open>calloc\<close>.
  \<open>alloc n\<close> tells whether an allocation of \<open>n\<close> elements succeeds. The loops test
  \<^verbatim>\<open>i < length + 1\<close>, a sum on \<^verbatim>\<open>int\<close>.
\<close>

definition OptimizeHuffmanForRle :: "(nat \<Rightarrow> bool) \<Rightarrow> nat \<Rightarrow> int list \<Rightarrow> error + int list" where
  "OptimizeHuffmanForRle alloc len counts =
     (let len' = trim_length counts len
      in if len' = 0 then Inr counts
         else if \<not> alloc len' then Inl AllocationFailure
         else if int len' + 1 > INT_MAX then Inl SignedOverflow
         else
           (let good_for_rle = mark_good_for_rle counts len' 0 (counts ! 0) 0 (replicate len' 0)
            in collapse_loop good_for_rle len' (0, 0, counts ! 0, 0, counts)))"

text \<open>The states that step 3 goes through, for the statements about its strides.\<close>

inductive collapse_reaches ::
  "nat list \<Rightarrow> nat \<Rightarrow> int list \<Rightarrow> nat \<times> int \<times> int \<times> int \<times> int list \<Rightarrow> bool"
  for good_for_rle :: "nat list" and len :: nat and counts0 :: "int list" where
  start: "collapse_reaches good_for_rle len counts0 (0, 0, counts0 ! 0, 0, counts0)"
| step: "collapse_reaches good_for_rle len counts0 s \<Longrightarrow> fst s < len + 1 \<Longrightarrow>
         collapse_step good_for_rle len s = Inr s' \<Longrightarrow>
         collapse_reaches good_for_rle len counts0 s'"

definition state_counts :: "nat \<times> int \<times> int \<times> int \<times> int list \<Rightarrow> int list" where
  "state_counts s = snd (snd (snd (snd s)))"

text \<open>
  The sum of the counts at the positions of a stride of length \<open>stride\<close> that ends before
  \<open>i\<close>: the positions from \<open>i - stride\<close> to \<open>i - 1\<close>.
\<close>

definition stride_total :: "int list \<Rightarrow> nat \<Rightarrow> int \<Rightarrow> int" where
  "stride_total counts i stride = sum_list (map (\<lambda>q. counts ! q) [i - nat stride..<i])"

text \<open>An allocator that never fails.\<close>

definition alloc_succeeds :: "nat \<Rightarrow> bool" where
  "alloc_succeeds n = True"

subsection \<open>Creating an optimal Huffman tree\<close>

record HuffmanTree =
  total_count :: int
  value' :: int
  pool_index_left :: int
  pool_index_right :: int

text \<open>
  A comparer function for two Huffman trees: sorts first by 'total count' (more comes
  first), and then by 'value' (less comes first, as the code has it).
\<close>

definition CompareHuffmanTrees :: "HuffmanTree \<Rightarrow> HuffmanTree \<Rightarrow> int" where
  "CompareHuffmanTrees t1 t2 =
     (if total_count t1 > total_count t2 then - 1
      else if total_count t1 < total_count t2 then 1
      else (if value' t1 < value' t2 then - 1
            else if value' t1 > value' t2 then 1
            else 0))"

text \<open>
  \<^verbatim>\<open>qsort\<close> of the C library, as an insertion sort with the comparer. The leaves it sorts
  have pairwise distinct values, on which the comparer is a linear order: every sorting
  algorithm gives the same array.
\<close>

fun qsort_insert :: "('a \<Rightarrow> 'a \<Rightarrow> int) \<Rightarrow> 'a \<Rightarrow> 'a list \<Rightarrow> 'a list" where
  "qsort_insert compar x [] = [x]"
| "qsort_insert compar x (y # ys) =
     (if compar x y \<le> 0 then x # y # ys else y # qsort_insert compar x ys)"

fun qsort :: "'a list \<Rightarrow> ('a \<Rightarrow> 'a \<Rightarrow> int) \<Rightarrow> 'a list" where
  "qsort [] compar = []"
| "qsort (x # xs) compar = qsort_insert compar x (qsort xs compar)"

text \<open>
  \<^verbatim>\<open>SetBitDepths\<close> recurses through the pool by index; \<open>None\<close> is a recursion that does not
  end. The level is stored in a \<^verbatim>\<open>uint8_t\<close>.
\<close>

partial_function (option) SetBitDepths ::
  "HuffmanTree \<Rightarrow> HuffmanTree list \<Rightarrow> nat list \<Rightarrow> int \<Rightarrow> nat list option" where
  "SetBitDepths tree pool bit_depths level =
     (if pool_index_left tree \<ge> 0 then
        Option.bind (SetBitDepths (pool ! nat (pool_index_left tree)) pool bit_depths (level + 1))
          (\<lambda>bit_depths'.
             SetBitDepths (pool ! nat (pool_index_right tree)) pool bit_depths' (level + 1))
      else Some (bit_depths[nat (value' tree) := nat (level mod 256)]))"

declare SetBitDepths.simps [code]

text \<open>The leaves, one per non-zero count, faked to be at least \<^verbatim>\<open>count_min\<close>.\<close>

fun make_leaves :: "int list \<Rightarrow> int \<Rightarrow> nat \<Rightarrow> HuffmanTree list" where
  "make_leaves [] count_min j = []"
| "make_leaves (h # histogram) count_min j =
     (if h \<noteq> 0 then
        \<lparr>total_count = (if h < count_min then count_min else h), value' = int j,
         pool_index_left = - 1, pool_index_right = - 1\<rparr> # make_leaves histogram count_min (j + 1)
      else make_leaves histogram count_min (j + 1))"

text \<open>Search for the insertion point.\<close>

function insertion_point :: "HuffmanTree list \<Rightarrow> nat \<Rightarrow> int \<Rightarrow> nat \<Rightarrow> nat" where
  "insertion_point tree tree_size count k =
     (if k < tree_size then
        (if total_count (tree ! k) \<le> count then k
         else insertion_point tree tree_size count (k + 1))
      else k)"
  by pat_completeness auto
termination
  by (relation "measure (\<lambda>(tree, tree_size, count, k). tree_size - k)") auto

declare insertion_point.simps [simp del]

text \<open>
  One round of the loop \<^verbatim>\<open>while (tree_size > 1)\<close>: the two last trees go to the pool, and
  a node of their total count is inserted. The list \<open>tree\<close> is the array up to
  \<^verbatim>\<open>tree_size\<close>. A sum beyond \<^verbatim>\<open>INT_MAX\<close> is an error.
\<close>

definition merge_step ::
  "HuffmanTree list \<Rightarrow> HuffmanTree list \<Rightarrow> error + HuffmanTree list \<times> HuffmanTree list" where
  "merge_step tree tree_pool =
     (let tree_size = length tree;
          tree_pool1 = tree_pool @ [tree ! (tree_size - 1)];
          tree_pool2 = tree_pool1 @ [tree ! (tree_size - 2)];
          tree_pool_size = length tree_pool2;
          count = total_count (tree_pool2 ! (tree_pool_size - 1)) +
                  total_count (tree_pool2 ! (tree_pool_size - 2))
      in if count > INT_MAX \<or> count < - INT_MAX - 1 then Inl SignedOverflow
         else
           (let tree_size' = tree_size - 2;
                k = insertion_point tree tree_size' count 0
            in Inr (take k tree @
                    \<lparr>total_count = count, value' = - 1,
                     pool_index_left = int tree_pool_size - 1,
                     pool_index_right = int tree_pool_size - 2\<rparr> # drop k (take tree_size' tree),
                    tree_pool2)))"

function merge_loop ::
  "HuffmanTree list \<Rightarrow> HuffmanTree list \<Rightarrow> error + HuffmanTree list \<times> HuffmanTree list" where
  "merge_loop tree tree_pool =
     (if length tree > 1 then
        (case merge_step tree tree_pool of
           Inl e \<Rightarrow> Inl e
         | Inr (tree', tree_pool') \<Rightarrow> merge_loop tree' tree_pool')
      else Inr (tree, tree_pool))"
  by pat_completeness auto
termination
proof -
  have le: "insertion_point tree tree_size count k \<le> max k tree_size" for tree tree_size count k
    by (induction tree tree_size count k rule: insertion_point.induct)
       (subst insertion_point.simps, auto)
  have "length tree' < length tree"
    if "1 < length tree" "merge_step tree tree_pool = Inr (tree', tree_pool')"
    for tree tree_pool tree' tree_pool'
  proof -
    define k where "k = insertion_point tree (length tree - 2)
      (total_count (tree ! (length tree - 2)) + total_count (tree ! (length tree - 1))) 0"
    have k: "k \<le> length tree - 2"
      unfolding k_def using le [of tree "length tree - 2" _ 0] by simp
    have "\<exists>node. tree' = take k tree @ node # drop k (take (length tree - 2) tree)"
      using that(2) by (auto simp: merge_step_def Let_def nth_append k_def split: if_splits)
    then show ?thesis
      using k that(1) by auto
  qed
  then show ?thesis
    by (relation "measure (\<lambda>(tree, tree_pool). length tree)") auto
qed

declare merge_loop.simps [simp del]

text \<open>
  The body of the loop over \<^verbatim>\<open>count_min\<close>, up to the bit depths: \<open>None\<close> when
  \<^verbatim>\<open>SetBitDepths\<close> does not return.
\<close>

definition assign_bit_depths :: "int list \<Rightarrow> int \<Rightarrow> nat list \<Rightarrow> (error + nat list) option" where
  "assign_bit_depths histogram count_min bit_depths =
     (let tree = qsort (make_leaves histogram count_min 0) CompareHuffmanTrees;
          tree_size = length tree
      in if tree_size > 1 then
           (case merge_loop tree [] of
              Inl e \<Rightarrow> Some (Inl e)
            | Inr (tree', tree_pool) \<Rightarrow>
                map_option Inr (SetBitDepths (tree' ! 0) tree_pool bit_depths 0))
         else if tree_size = 1 then Some (Inr (bit_depths[nat (value' (tree ! 0)) := 1]))
         else Some (Inr bit_depths))"

text \<open>
  Test if this Huffman tree satisfies our 'tree_depth_limit' criteria: the maximum of
  \<^verbatim>\<open>bit_depths[0..histogram_size)\<close>, starting from \<^verbatim>\<open>bit_depths[0]\<close>.
\<close>

definition max_depth :: "nat list \<Rightarrow> nat \<Rightarrow> nat" where
  "max_depth bit_depths histogram_size =
     foldl (\<lambda>m b. if m < b then b else m) (bit_depths ! 0)
       (drop 1 (take histogram_size bit_depths))"

text \<open>
  The loop \<^verbatim>\<open>for (count_min = 1; ; count_min *= 2)\<close>. Doubling \<^verbatim>\<open>count_min\<close> beyond
  \<^verbatim>\<open>INT_MAX\<close> is an error; \<^verbatim>\<open>count_min\<close> starts at 1 and is positive throughout.
\<close>

function GenerateOptimalTree_loop ::
  "int list \<Rightarrow> int \<Rightarrow> nat list \<Rightarrow> int \<Rightarrow> (error + nat list) option" where
  "GenerateOptimalTree_loop histogram tree_depth_limit bit_depths count_min =
     (case assign_bit_depths histogram count_min bit_depths of
        None \<Rightarrow> None
      | Some (Inl e) \<Rightarrow> Some (Inl e)
      | Some (Inr bit_depths') \<Rightarrow>
          if int (max_depth bit_depths' (length histogram)) \<le> tree_depth_limit
          then Some (Inr bit_depths')
          else if count_min < 1 \<or> count_min * 2 > INT_MAX then Some (Inl SignedOverflow)
          else GenerateOptimalTree_loop histogram tree_depth_limit bit_depths' (count_min * 2))"
  by pat_completeness auto
termination
  by (relation "measure (\<lambda>(histogram, tree_depth_limit, bit_depths, count_min).
                   nat (INT_MAX + 1 - count_min))")
     (auto simp: INT_MAX_def)

declare GenerateOptimalTree_loop.simps [simp del]

text \<open>
  \<^verbatim>\<open>GenerateOptimalTree\<close>: the bit depths after the call. The histogram and the bit depths
  are arrays of \<^verbatim>\<open>histogram_size\<close> entries. The assertion
  \<^verbatim>\<open>tree_size_orig <= (1 << (tree_depth_limit - 1))\<close> shifts an \<^verbatim>\<open>int\<close>, which is defined
  for limits from 1 to 31.
\<close>

definition GenerateOptimalTree ::
  "(nat \<Rightarrow> bool) \<Rightarrow> int list \<Rightarrow> int \<Rightarrow> nat list \<Rightarrow> (error + nat list) option" where
  "GenerateOptimalTree alloc histogram tree_depth_limit bit_depths =
     (let tree_size_orig = length (filter (\<lambda>h. h \<noteq> 0) histogram)
      in if \<not> alloc (3 * tree_size_orig) then Some (Inl AllocationFailure)
         else if \<not> (1 \<le> tree_depth_limit \<and> tree_depth_limit \<le> 31 \<and>
                    int tree_size_orig \<le> 2 ^ nat (tree_depth_limit - 1))
         then Some (Inl AssertionFailure)
         else GenerateOptimalTree_loop histogram tree_depth_limit bit_depths 1)"

subsection \<open>Main entry point\<close>


subsection \<open>The merge tree as a datatype\<close>

text \<open>
  For the statements about the bit depths: the tree that a node of the working array
  stands for, with the pool read as a store of nodes. A leaf carries its count and its
  symbol; the count of an inner node is the sum of the counts of its leaves.
\<close>

datatype htree = Leaf int nat | Node htree htree

fun weight :: "htree \<Rightarrow> int" where
  "weight (Leaf c s) = c"
| "weight (Node l r) = weight l + weight r"

fun leaves :: "htree \<Rightarrow> nat list" where
  "leaves (Leaf c s) = [s]"
| "leaves (Node l r) = leaves l @ leaves r"

fun height :: "htree \<Rightarrow> nat" where
  "height (Leaf c s) = 0"
| "height (Node l r) = Suc (max (height l) (height r))"

text \<open>The depth of the leaf of symbol \<open>s\<close>, in a tree whose leaves have distinct symbols.\<close>

fun depth_of :: "htree \<Rightarrow> nat \<Rightarrow> nat" where
  "depth_of (Leaf c s') s = 0"
| "depth_of (Node l r) s =
     Suc (if s \<in> set (leaves l) then depth_of l s else depth_of r s)"

text \<open>What \<^verbatim>\<open>SetBitDepths\<close> computes, by recursion on the tree.\<close>

fun set_depths :: "htree \<Rightarrow> nat list \<Rightarrow> int \<Rightarrow> nat list" where
  "set_depths (Leaf c s) bit_depths level = bit_depths[s := nat (level mod 256)]"
| "set_depths (Node l r) bit_depths level =
     set_depths r (set_depths l bit_depths (level + 1)) (level + 1)"

inductive tree_at :: "HuffmanTree list \<Rightarrow> HuffmanTree \<Rightarrow> htree \<Rightarrow> bool"
  for pool :: "HuffmanTree list" where
  leaf: "pool_index_left n < 0 \<Longrightarrow> 0 \<le> value' n \<Longrightarrow>
         tree_at pool n (Leaf (total_count n) (nat (value' n)))"
| node: "0 \<le> pool_index_left n \<Longrightarrow> nat (pool_index_left n) < length pool \<Longrightarrow>
         0 \<le> pool_index_right n \<Longrightarrow> nat (pool_index_right n) < length pool \<Longrightarrow>
         tree_at pool (pool ! nat (pool_index_left n)) l \<Longrightarrow>
         tree_at pool (pool ! nat (pool_index_right n)) r \<Longrightarrow>
         total_count n = weight l + weight r \<Longrightarrow>
         tree_at pool n (Node l r)"

text \<open>
  The order that the merge loop keeps: the children of a node weigh at most as much as
  the sibling of the node.
\<close>

fun kids_le :: "htree \<Rightarrow> int \<Rightarrow> bool" where
  "kids_le (Leaf c s) b = True"
| "kids_le (Node l r) b = (weight l \<le> b \<and> weight r \<le> b)"

fun sib_ok :: "htree \<Rightarrow> bool" where
  "sib_ok (Leaf c s) = (1 \<le> c)"
| "sib_ok (Node l r) =
     (sib_ok l \<and> sib_ok r \<and> kids_le l (weight r) \<and> kids_le r (weight l))"

text \<open>
  The symbols of non-zero count, and the Kraft sum of their bit depths.
\<close>

definition used_symbols :: "int list \<Rightarrow> nat list" where
  "used_symbols histogram = filter (\<lambda>i. histogram ! i \<noteq> 0) [0..<length histogram]"

definition kraft_sum :: "int list \<Rightarrow> nat list \<Rightarrow> real" where
  "kraft_sum histogram bit_depths =
     (\<Sum>i\<leftarrow>used_symbols histogram. 1 / 2 ^ (bit_depths ! i))"

text \<open>
  What one round of the merge loop keeps, for the working array \<open>tree\<close>, the pool and the
  trees \<open>ts\<close> that the nodes of the array stand for; \<open>S\<close> is the set of the used symbols.
\<close>

definition forest_inv ::
  "nat set \<Rightarrow> HuffmanTree list \<Rightarrow> HuffmanTree list \<Rightarrow> htree list \<Rightarrow> bool" where
  "forest_inv S pool tree ts \<longleftrightarrow>
     list_all2 (tree_at pool) tree ts \<and>
     sorted_wrt (\<lambda>a b. total_count a \<ge> total_count b) tree \<and>
     (\<forall>t\<in>set ts. sib_ok t) \<and>
     (\<forall>t\<in>set ts. \<forall>n\<in>set tree. kids_le t (total_count n)) \<and>
     (\<forall>n\<in>set tree. 0 \<le> pool_index_left n \<longrightarrow> total_count n \<le> INT_MAX) \<and>
     (\<Sum>t\<leftarrow>ts. length (leaves t)) = card S \<and>
     (\<Union>t\<in>set ts. set (leaves t)) = S"

text \<open>The Kraft sum of a complete tree, of a single code of length 1 and of no code.\<close>

definition kraft_value :: "int list \<Rightarrow> real" where
  "kraft_value histogram =
     (if 1 < length (used_symbols histogram) then 1
      else if length (used_symbols histogram) = 1 then 1 / 2 else 0)"

section \<open>Properties of the token encoder\<close>

lemma decode_tokens_append:
  "decode_tokens p (ts @ us) =
     (case decode_tokens p ts of
        None \<Rightarrow> None
      | Some (p', xs) \<Rightarrow>
          (case decode_tokens p' us of
             None \<Rightarrow> None
           | Some (p'', ys) \<Rightarrow> Some (p'', xs @ ys)))"
  by (induction ts arbitrary: p) (auto split: option.splits)

lemma CodeRepeatedValues_loop_append:
  "CodeRepeatedValues_loop r tokens v = tokens @ CodeRepeatedValues_loop r [] v"
proof (induction "nat r" arbitrary: r tokens rule: less_induct)
  case less
  show ?case
  proof (cases "7 \<le> r")
    case True
    then have lt: "nat (r - 6) < nat r" by simp
    have "CodeRepeatedValues_loop r tokens v =
        CodeRepeatedValues_loop (r - 6) (tokens @ [\<lparr>code = 16, extra_bits = 3\<rparr>]) v"
      using True by (subst CodeRepeatedValues_loop.simps) simp
    also have "\<dots> = (tokens @ [\<lparr>code = 16, extra_bits = 3\<rparr>]) @ CodeRepeatedValues_loop (r - 6) [] v"
      by (rule less [OF lt])
    also have "\<dots> = tokens @ CodeRepeatedValues_loop (r - 6) [\<lparr>code = 16, extra_bits = 3\<rparr>] v"
      using less [OF lt, of "[\<lparr>code = 16, extra_bits = 3\<rparr>]"] by simp
    also have "CodeRepeatedValues_loop (r - 6) [\<lparr>code = 16, extra_bits = 3\<rparr>] v =
        CodeRepeatedValues_loop r [] v"
      using True by (subst (2) CodeRepeatedValues_loop.simps) simp
    finally show ?thesis .
  next
    case False
    then show ?thesis
      by (simp add: CodeRepeatedValues_loop.simps [of r])
  qed
qed

lemma CodeRepeatedZeros_append:
  "CodeRepeatedZeros r tokens = tokens @ CodeRepeatedZeros r []"
proof (induction "nat r" arbitrary: r tokens rule: less_induct)
  case less
  show ?case
  proof (cases "139 \<le> r")
    case True
    then have lt: "nat (r - 138) < nat r" by simp
    have "CodeRepeatedZeros r tokens =
        CodeRepeatedZeros (r - 138) (tokens @ [\<lparr>code = 18, extra_bits = 0x7f\<rparr>])"
      using True by (subst CodeRepeatedZeros.simps) simp
    also have "\<dots> = (tokens @ [\<lparr>code = 18, extra_bits = 0x7f\<rparr>]) @ CodeRepeatedZeros (r - 138) []"
      by (rule less [OF lt])
    also have "\<dots> = tokens @ CodeRepeatedZeros (r - 138) [\<lparr>code = 18, extra_bits = 0x7f\<rparr>]"
      using less [OF lt, of "[\<lparr>code = 18, extra_bits = 0x7f\<rparr>]"] by simp
    also have "CodeRepeatedZeros (r - 138) [\<lparr>code = 18, extra_bits = 0x7f\<rparr>] =
        CodeRepeatedZeros r []"
      using True by (subst (2) CodeRepeatedZeros.simps) simp
    finally show ?thesis .
  next
    case False
    then show ?thesis
      by (simp add: CodeRepeatedZeros.simps [of r])
  qed
qed

lemma decode_CodeRepeatedZeros:
  "0 \<le> r \<Longrightarrow> decode_tokens p (CodeRepeatedZeros r []) = Some (p, replicate (nat r) 0)"
proof (induction "nat r" arbitrary: r rule: less_induct)
  case less
  consider "r = 0" | "r = 1" | "r = 2" | "3 \<le> r" "r < 11" | "11 \<le> r" "r < 139" | "139 \<le> r"
    using less.prems by linarith
  then show ?case
  proof cases
    case 6
    then have lt: "nat (r - 138) < nat r" by simp
    have eq: "CodeRepeatedZeros r [] =
        [\<lparr>code = 18, extra_bits = 0x7f\<rparr>] @ CodeRepeatedZeros (r - 138) []"
      using 6 CodeRepeatedZeros_append [of "r - 138" "[\<lparr>code = 18, extra_bits = 0x7f\<rparr>]"]
      by (subst CodeRepeatedZeros.simps) simp
    have "replicate 138 (0::nat) @ replicate (nat (r - 138)) 0 = replicate (nat r) 0"
      using 6 by (simp add: replicate_add [symmetric] del: replicate_add)
    then show ?thesis
      using 6 less(1) [OF lt, of ] unfolding eq 
      by (simp add: expand_token_def)
  next
    case 4
    then show ?thesis
      by (auto simp add: CodeRepeatedZeros.simps [of r] expand_token_def)
  next
    case 5
    then show ?thesis
      by (auto simp add: CodeRepeatedZeros.simps [of r] expand_token_def)
  qed (simp_all add: CodeRepeatedZeros.simps [of 0] CodeRepeatedZeros.simps [of 1] CodeRepeatedZeros.simps [of 2] expand_token_def numeral_2_eq_2)
qed

lemma decode_CodeRepeatedValues_loop:
  "0 \<le> r \<Longrightarrow> 0 < v \<Longrightarrow> v < 16 \<Longrightarrow>
   decode_tokens (Some v) (CodeRepeatedValues_loop r [] v) = Some (Some v, replicate (nat r) v)"
proof (induction "nat r" arbitrary: r rule: less_induct)
  case less
  consider "r = 0" | "r = 1" | "r = 2" | "3 \<le> r" "r < 7" | "7 \<le> r"
    using less.prems by linarith
  then show ?case
  proof cases
    case 5
    then have lt: "nat (r - 6) < nat r" by simp
    have eq: "CodeRepeatedValues_loop r [] v =
        [\<lparr>code = 16, extra_bits = 3\<rparr>] @ CodeRepeatedValues_loop (r - 6) [] v"
      using 5 CodeRepeatedValues_loop_append [of "r - 6" "[\<lparr>code = 16, extra_bits = 3\<rparr>]"]
      by (subst CodeRepeatedValues_loop.simps) simp
    have "replicate 6 v @ replicate (nat (r - 6)) v = replicate (nat r) v"
      using 5 by (simp add: replicate_add [symmetric] del: replicate_add)
    then show ?thesis
      using 5 less(1) [OF lt] less.prems unfolding eq 
      by (simp add: expand_token_def)
  next
    case 4
    then show ?thesis using less.prems
      by (auto simp add: CodeRepeatedValues_loop.simps [of r] expand_token_def)
  qed (use less.prems in \<open>simp_all add: CodeRepeatedValues_loop.simps [of 0] CodeRepeatedValues_loop.simps [of 1]
       CodeRepeatedValues_loop.simps [of 2] expand_token_def numeral_2_eq_2\<close>)
qed

lemma run_end_le: "k \<le> length cl \<Longrightarrow> run_end cl v k \<le> length cl"
  by (induction cl v k rule: run_end.induct) (subst run_end.simps, auto)

lemma run_end_ge: "k \<le> run_end cl v k"
  by (induction cl v k rule: run_end.induct) (subst run_end.simps, auto)

lemma run_end_all: "k \<le> j \<Longrightarrow> j < run_end cl v k \<Longrightarrow> cl ! j = v"
proof (induction cl v k rule: run_end.induct)
  case (1 cl v k)
  show ?case
  proof (cases "k < length cl \<and> cl ! k = v")
    case True
    then have eq: "run_end cl v k = run_end cl v (k + 1)"
      by (subst run_end.simps) simp
    show ?thesis
    proof (cases "j = k")
      case True
      then show ?thesis using \<open>k < length cl \<and> cl ! k = v\<close> by simp
    next
      case False
      then show ?thesis using 1 True eq by auto
    qed
  next
    case False
    then have "run_end cl v k = k"
      by (subst run_end.simps) auto
    then show ?thesis using 1 by simp
  qed
qed

lemma take_run:
  assumes "i < length cl" 
  shows "take (run_end cl (cl ! i) (i + 1)) cl =
         take i cl @ replicate (run_end cl (cl ! i) (i + 1) - i) (cl ! i)"
proof -
  let ?k = "run_end cl (cl ! i) (i + 1)"
  have k: "i + 1 \<le> ?k" "?k \<le> length cl"
    using assms by (simp_all add: run_end_ge run_end_le)
  have all: "cl ! j = cl ! i" if "i \<le> j" "j < ?k" for j
    using that run_end_all [of "i + 1" j cl "cl ! i"] by (cases "j = i") auto
  show ?thesis
  proof (rule nth_equalityI)
    show "length (take ?k cl) = length (take i cl @ replicate (?k - i) (cl ! i))"
      using k assms by simp
  next
    fix j assume "j < length (take ?k cl)"
    then have j: "j < ?k" by simp
    show "take ?k cl ! j = (take i cl @ replicate (?k - i) (cl ! i)) ! j"
    proof (cases "j < i")
      case True
      then show ?thesis using j assms by (simp add: nth_append)
    next
      case False
      then have "cl ! j = cl ! i" using all [of j] j by simp
      then show ?thesis using False j assms by (simp add: nth_append)
    qed
  qed
qed

lemma decode_CodeRepeatedValues:
  assumes "CodeRepeatedValues r tokens v prev = Inr tokens'" "1 \<le> r" "0 < v"
    "decode_tokens d tokens = Some (Some prev, xs)"
  shows "decode_tokens d tokens' = Some (Some v, xs @ replicate (nat r) v)"
proof -
  have v: "v < 16" using assms(1)
    by (auto simp: CodeRepeatedValues_def MAX_ALLOWED_CODE_LENGTH_def split: if_splits)
  show ?thesis
  proof (cases "v = prev")
    case True
    then have "tokens' = tokens @ CodeRepeatedValues_loop r [] v"
      using assms(1) v CodeRepeatedValues_loop_append [of r tokens v]
      by (auto simp: CodeRepeatedValues_def MAX_ALLOWED_CODE_LENGTH_def split: if_splits)
    then show ?thesis
      using assms True v
      by (simp add: decode_tokens_append decode_CodeRepeatedValues_loop)
  next
    case False
    then have "tokens' = (tokens @ [\<lparr>code = v, extra_bits = 0\<rparr>]) @ CodeRepeatedValues_loop (r - 1) [] v"
      using assms(1) v CodeRepeatedValues_loop_append [of "r - 1" "tokens @ [\<lparr>code = v, extra_bits = 0\<rparr>]" v]
      by (auto simp: CodeRepeatedValues_def MAX_ALLOWED_CODE_LENGTH_def split: if_splits)
    moreover have "v # replicate (nat (r - 1)) v = replicate (nat r) v"
      using assms(2) by (metis Suc_nat_eq_nat_zadd1 add.commute diff_add_cancel diff_ge_0_iff_ge replicate_Suc)
    ultimately show ?thesis
      using assms False v
      by (simp add: decode_tokens_append decode_CodeRepeatedValues_loop expand_token_def)
  qed
qed

lemma loop_decode:
  "VP8LCreateCompressedHuffmanTree_loop cl mx i prev tokens = Inr toks \<Longrightarrow> i \<le> length cl \<Longrightarrow>
   decode_tokens d tokens = Some (Some prev, take i cl) \<Longrightarrow>
   \<exists>p. decode_tokens d toks = Some (p, cl)"
proof (induction cl mx i prev tokens rule: VP8LCreateCompressedHuffmanTree_loop.induct)
  case (1 cl mx i prev tokens)
  show ?case
  proof (cases "i < length cl")
    case False
    then have "VP8LCreateCompressedHuffmanTree_loop cl mx i prev tokens = Inr tokens"
      by (subst VP8LCreateCompressedHuffmanTree_loop.simps) simp
    then show ?thesis
      using "1.prems" False by simp
  next
    case True
    define v where "v = cl ! i"
    define k where "k = run_end cl v (i + 1)"
    define runs where "runs = int k - int i"
    have k: "i + 1 \<le> k" "k \<le> length cl"
      using True by (simp_all add: k_def run_end_ge run_end_le)
    have tk: "take k cl = take i cl @ replicate (nat runs) v"
      using take_run [OF True] k by (simp add: k_def v_def runs_def)
    have ik: "i + nat runs = k" using k by (simp add: runs_def)
    show ?thesis
    proof (cases "v = 0")
      case v0: True
      define tokens' where "tokens' = CodeRepeatedZeros runs tokens"
      have ok: "\<not> \<not> int (length tokens') \<le> mx"
        and rec: "VP8LCreateCompressedHuffmanTree_loop cl mx (i + nat runs) prev tokens' = Inr toks"
        using "1.prems"(1) True v0
        by (auto simp: VP8LCreateCompressedHuffmanTree_loop.simps [of cl mx i] Let_def
            v_def k_def runs_def tokens'_def split: if_splits)
      have r0: "0 \<le> runs" using k by (simp add: runs_def)
      have "take (i + nat runs) cl = take i cl @ replicate (nat runs) 0"
        using tk ik v0 by simp
      then have "decode_tokens d tokens' = Some (Some prev, take (i + nat runs) cl)"
        using r0 "1.prems"(3) CodeRepeatedZeros_append [of runs tokens]
        by (simp add: tokens'_def decode_tokens_append decode_CodeRepeatedZeros)
      then show ?thesis
        using "1.IH"(1) [OF True v_def k_def runs_def v0 tokens'_def ok rec] k ik by simp
    next
      case v1: False
      obtain tokens' where crv: "CodeRepeatedValues runs tokens v prev = Inr tokens'"
        and ok: "\<not> \<not> int (length tokens') \<le> mx"
        and rec: "VP8LCreateCompressedHuffmanTree_loop cl mx (i + nat runs) v tokens' = Inr toks"
        using "1.prems"(1) True v1
        by (auto simp: VP8LCreateCompressedHuffmanTree_loop.simps [of cl mx i] Let_def
            v_def k_def runs_def split: if_splits sum.splits)
      have r1: "1 \<le> runs" using k by (simp add: runs_def)
      have "take (i + nat runs) cl = take i cl @ replicate (nat runs) v"
        using tk ik by simp
      then have "decode_tokens d tokens' = Some (Some v, take (i + nat runs) cl)"
        using decode_CodeRepeatedValues [OF crv r1 _ "1.prems"(3)] v1
        by simp
      then show ?thesis
        using "1.IH"(2) [OF True v_def k_def runs_def v1 crv ok rec] k ik by simp
    qed
  qed
qed

lemma length_CodeRepeatedZeros:
  "0 \<le> r \<Longrightarrow> int (length (CodeRepeatedZeros r [])) \<le> r"
proof (induction "nat r" arbitrary: r rule: less_induct)
  case less
  show ?case
  proof (cases "139 \<le> r")
    case True
    then have lt: "nat (r - 138) < nat r" by simp
    have eq: "CodeRepeatedZeros r [] =
        [\<lparr>code = 18, extra_bits = 0x7f\<rparr>] @ CodeRepeatedZeros (r - 138) []"
      using True CodeRepeatedZeros_append [of "r - 138" "[\<lparr>code = 18, extra_bits = 0x7f\<rparr>]"]
      by (subst CodeRepeatedZeros.simps) simp
    show ?thesis
      using less(1) [OF lt] True unfolding eq by simp
  next
    case False
    then show ?thesis using less.prems
      by (subst CodeRepeatedZeros.simps) auto
  qed
qed

lemma length_CodeRepeatedValues_loop:
  "0 \<le> r \<Longrightarrow> int (length (CodeRepeatedValues_loop r [] v)) \<le> r"
proof (induction "nat r" arbitrary: r rule: less_induct)
  case less
  show ?case
  proof (cases "7 \<le> r")
    case True
    then have lt: "nat (r - 6) < nat r" by simp
    have eq: "CodeRepeatedValues_loop r [] v =
        [\<lparr>code = 16, extra_bits = 3\<rparr>] @ CodeRepeatedValues_loop (r - 6) [] v"
      using True CodeRepeatedValues_loop_append [of "r - 6" "[\<lparr>code = 16, extra_bits = 3\<rparr>]"]
      by (subst CodeRepeatedValues_loop.simps) simp
    show ?thesis
      using less(1) [OF lt] True unfolding eq by simp
  next
    case False
    then show ?thesis using less.prems
      by (subst CodeRepeatedValues_loop.simps) auto
  qed
qed

lemma length_CodeRepeatedValues:
  assumes "v \<le> 15" "1 \<le> r"
  shows "\<exists>tokens'. CodeRepeatedValues r tokens v prev = Inr tokens' \<and>
           int (length tokens') \<le> int (length tokens) + r"
proof (cases "v = prev")
  case True
  then show ?thesis
    using assms length_CodeRepeatedValues_loop [of r v] CodeRepeatedValues_loop_append [of r tokens v]
    by (simp add: CodeRepeatedValues_def MAX_ALLOWED_CODE_LENGTH_def)
next
  case False
  then show ?thesis
    using assms length_CodeRepeatedValues_loop [of "r - 1" v]
      CodeRepeatedValues_loop_append [of "r - 1" "tokens @ [\<lparr>code = v, extra_bits = 0\<rparr>]" v]
    by (simp add: CodeRepeatedValues_def MAX_ALLOWED_CODE_LENGTH_def)
qed

lemma loop_length:
  "\<forall>x\<in>set cl. x \<le> 15 \<Longrightarrow> i \<le> length cl \<Longrightarrow> length tokens \<le> i \<Longrightarrow> int (length cl) \<le> mx \<Longrightarrow>
   \<exists>toks. VP8LCreateCompressedHuffmanTree_loop cl mx i prev tokens = Inr toks \<and>
          length toks \<le> length cl"
proof (induction cl mx i prev tokens rule: VP8LCreateCompressedHuffmanTree_loop.induct)
  case (1 cl mx i prev tokens)
  show ?case
  proof (cases "i < length cl")
    case False
    then have "VP8LCreateCompressedHuffmanTree_loop cl mx i prev tokens = Inr tokens"
      by (subst VP8LCreateCompressedHuffmanTree_loop.simps) simp
    then show ?thesis
      using "1.prems" False by simp
  next
    case True
    define v where "v = cl ! i"
    define k where "k = run_end cl v (i + 1)"
    define runs where "runs = int k - int i"
    have k: "i + 1 \<le> k" "k \<le> length cl"
      using True by (simp_all add: k_def run_end_ge run_end_le)
    have ik: "i + nat runs = k" using k by (simp add: runs_def)
    have v15: "v \<le> 15" using "1.prems"(1) True by (simp add: v_def)
    show ?thesis
    proof (cases "v = 0")
      case v0: True
      define tokens' where "tokens' = CodeRepeatedZeros runs tokens"
      have len: "int (length tokens') \<le> int (length tokens) + runs"
        using length_CodeRepeatedZeros [of runs] CodeRepeatedZeros_append [of runs tokens] k
        by (simp add: tokens'_def runs_def)
      then have len': "length tokens' \<le> i + nat runs"
        using "1.prems"(3) k by (simp add: runs_def)
      have ok: "\<not> \<not> int (length tokens') \<le> mx"
        using len' ik k "1.prems"(4) by simp
      have "VP8LCreateCompressedHuffmanTree_loop cl mx i prev tokens =
            VP8LCreateCompressedHuffmanTree_loop cl mx (i + nat runs) prev tokens'"
        using True v0 ok unfolding tokens'_def runs_def k_def v_def
        by (subst VP8LCreateCompressedHuffmanTree_loop.simps) (simp add: Let_def)
      then show ?thesis
        using "1.IH"(1) [OF True v_def k_def runs_def v0 tokens'_def ok "1.prems"(1) _ len' "1.prems"(4)]
          k ik by simp
    next
      case v1: False
      obtain tokens' where crv: "CodeRepeatedValues runs tokens v prev = Inr tokens'"
        and len: "int (length tokens') \<le> int (length tokens) + runs"
        using length_CodeRepeatedValues [OF v15, of runs tokens prev] k by (auto simp: runs_def)
      then have len': "length tokens' \<le> i + nat runs"
        using "1.prems"(3) k by (simp add: runs_def)
      have ok: "\<not> \<not> int (length tokens') \<le> mx"
        using len' ik k "1.prems"(4) by simp
      have "VP8LCreateCompressedHuffmanTree_loop cl mx i prev tokens =
            VP8LCreateCompressedHuffmanTree_loop cl mx (i + nat runs) v tokens'"
        using True v1 ok crv unfolding runs_def k_def v_def
        by (subst VP8LCreateCompressedHuffmanTree_loop.simps) (simp add: Let_def)
      then show ?thesis
        using "1.IH"(2) [OF True v_def k_def runs_def v1 crv ok "1.prems"(1) _ len' "1.prems"(4)]
          k ik by simp
    qed
  qed
qed

lemma loop_step:
  assumes "VP8LCreateCompressedHuffmanTree_loop cl mx i prev tokens = Inr toks" "i < length cl"
  obtains sfx prev' k where "i < k" "k \<le> length cl" "k = run_end cl (cl ! i) (i + 1)"
    "VP8LCreateCompressedHuffmanTree_loop cl mx k prev' (tokens @ sfx) = Inr toks"
    "cl ! i = 0 \<and> sfx = CodeRepeatedZeros (int k - int i) [] \<and> prev' = prev \<or>
     cl ! i \<noteq> 0 \<and> cl ! i \<le> 15 \<and> prev' = cl ! i \<and>
       sfx = (if cl ! i \<noteq> prev
              then \<lparr>code = cl ! i, extra_bits = 0\<rparr> # CodeRepeatedValues_loop (int k - int i - 1) [] (cl ! i)
              else CodeRepeatedValues_loop (int k - int i) [] (cl ! i))"
proof -
  define v where "v = cl ! i"
  define k where "k = run_end cl v (i + 1)"
  define runs where "runs = int k - int i"
  have k: "i + 1 \<le> k" "k \<le> length cl"
    using assms(2) by (simp_all add: k_def run_end_ge run_end_le)
  have ik: "i + nat runs = k" using k by (simp add: runs_def)
  show ?thesis
  proof (cases "v = 0")
    case True
    have "VP8LCreateCompressedHuffmanTree_loop cl mx k prev (tokens @ CodeRepeatedZeros runs []) = Inr toks"
      using assms True CodeRepeatedZeros_append [of runs tokens] ik
      by (auto simp: VP8LCreateCompressedHuffmanTree_loop.simps [of cl mx i] Let_def
            v_def k_def runs_def split: if_splits)
    then show ?thesis
      using that [of k prev "CodeRepeatedZeros runs []"] k True
      by (simp add: v_def k_def runs_def)
  next
    case False
    obtain tokens' where crv: "CodeRepeatedValues runs tokens v prev = Inr tokens'"
      and rec: "VP8LCreateCompressedHuffmanTree_loop cl mx (i + nat runs) v tokens' = Inr toks"
      using assms False
      by (auto simp: VP8LCreateCompressedHuffmanTree_loop.simps [of cl mx i] Let_def
            v_def k_def runs_def split: if_splits sum.splits)
    have v15: "v \<le> 15" using crv
      by (auto simp: CodeRepeatedValues_def MAX_ALLOWED_CODE_LENGTH_def split: if_splits)
    define sfx where "sfx = (if v \<noteq> prev
              then \<lparr>code = v, extra_bits = 0\<rparr> # CodeRepeatedValues_loop (runs - 1) [] v
              else CodeRepeatedValues_loop runs [] v)"
    have "tokens' = tokens @ sfx"
      using crv v15 CodeRepeatedValues_loop_append [of runs tokens v]
        CodeRepeatedValues_loop_append [of "runs - 1" "tokens @ [\<lparr>code = v, extra_bits = 0\<rparr>]" v]
      by (auto simp: CodeRepeatedValues_def MAX_ALLOWED_CODE_LENGTH_def sfx_def split: if_splits)
    then have "VP8LCreateCompressedHuffmanTree_loop cl mx k v (tokens @ sfx) = Inr toks"
      using rec ik by simp
    then show ?thesis
      using that [of k v sfx] k False v15
      by (simp add: v_def k_def runs_def sfx_def)
  qed
qed


lemma extra_CodeRepeatedZeros:
  "t \<in> set (CodeRepeatedZeros r []) \<Longrightarrow> token_repeats t \<le> 138"
proof (induction "nat r" arbitrary: r rule: less_induct)
  case less
  show ?case
  proof (cases "139 \<le> r")
    case True
    then have lt: "nat (r - 138) < nat r" by simp
    have eq: "CodeRepeatedZeros r [] =
        [\<lparr>code = 18, extra_bits = 0x7f\<rparr>] @ CodeRepeatedZeros (r - 138) []"
      using True CodeRepeatedZeros_append [of "r - 138" "[\<lparr>code = 18, extra_bits = 0x7f\<rparr>]"]
      by (subst CodeRepeatedZeros.simps) simp
    show ?thesis
      using less(1) [OF lt] less.prems unfolding eq by (auto simp: token_repeats_def)
  next
    case False
    then show ?thesis using less.prems
      by (subst (asm) CodeRepeatedZeros.simps) (auto simp: token_repeats_def split: if_splits)
  qed
qed

lemma extra_CodeRepeatedValues_loop:
  "t \<in> set (CodeRepeatedValues_loop r [] v) \<Longrightarrow> token_repeats t \<le> 138"
proof (induction "nat r" arbitrary: r rule: less_induct)
  case less
  show ?case
  proof (cases "7 \<le> r")
    case True
    then have lt: "nat (r - 6) < nat r" by simp
    have eq: "CodeRepeatedValues_loop r [] v =
        [\<lparr>code = 16, extra_bits = 3\<rparr>] @ CodeRepeatedValues_loop (r - 6) [] v"
      using True CodeRepeatedValues_loop_append [of "r - 6" "[\<lparr>code = 16, extra_bits = 3\<rparr>]"]
      by (subst CodeRepeatedValues_loop.simps) simp
    show ?thesis
      using less(1) [OF lt] less.prems unfolding eq by (auto simp: token_repeats_def)
  next
    case False
    then show ?thesis using less.prems
      by (subst (asm) CodeRepeatedValues_loop.simps) (auto simp: token_repeats_def split: if_splits)
  qed
qed

lemma loop_repeats:
  "VP8LCreateCompressedHuffmanTree_loop cl mx i prev tokens = Inr toks \<Longrightarrow>
   \<forall>t\<in>set tokens. token_repeats t \<le> 138 \<Longrightarrow> t \<in> set toks \<Longrightarrow> token_repeats t \<le> 138"
proof (induction "length cl - i" arbitrary: i prev tokens rule: less_induct)
  case less
  show ?case
  proof (cases "i < length cl")
    case False
    then have "VP8LCreateCompressedHuffmanTree_loop cl mx i prev tokens = Inr tokens"
      by (subst VP8LCreateCompressedHuffmanTree_loop.simps) simp
    then show ?thesis using less.prems by simp
  next
    case True
    from loop_step [OF less.prems(1) True] obtain sfx prev' k where
      k: "i < k" "k \<le> length cl"
      and rec: "VP8LCreateCompressedHuffmanTree_loop cl mx k prev' (tokens @ sfx) = Inr toks"
      and sfx: "cl ! i = 0 \<and> sfx = CodeRepeatedZeros (int k - int i) [] \<and> prev' = prev \<or>
     cl ! i \<noteq> 0 \<and> cl ! i \<le> 15 \<and> prev' = cl ! i \<and>
       sfx = (if cl ! i \<noteq> prev
              then \<lparr>code = cl ! i, extra_bits = 0\<rparr> # CodeRepeatedValues_loop (int k - int i - 1) [] (cl ! i)
              else CodeRepeatedValues_loop (int k - int i) [] (cl ! i))"
      by metis
    have lt: "length cl - k < length cl - i" using k True by simp
    have lit: "token_repeats \<lparr>code = c, extra_bits = 0\<rparr> \<le> 138" for c
      by (simp add: token_repeats_def)
    have "\<forall>t\<in>set sfx. token_repeats t \<le> 138"
      using sfx extra_CodeRepeatedZeros extra_CodeRepeatedValues_loop lit
      by (auto split: if_splits)
    then have "\<forall>t\<in>set (tokens @ sfx). token_repeats t \<le> 138"
      using less.prems(2) by auto
    from less(1) [OF lt rec this less.prems(3)] show ?thesis .
  qed
qed


subsection \<open>The claims about the token encoder\<close>

text \<open>
  Claim C2 (as amended). For every array of code lengths in 0..15 and a buffer of at least
  as many tokens, \<^verbatim>\<open>VP8LCreateCompressedHuffmanTree\<close> succeeds, and expanding its tokens
  reconstructs exactly the original array, provided the expansion starts with 8 as the
  previous non-zero length (the initial \<^verbatim>\<open>prev_value\<close> of the encoder).
\<close>

theorem token_round_trip:
  assumes "\<forall>x\<in>set (tree_lengths tree). x \<le> 15" "int (length (tree_lengths tree)) \<le> max_tokens"
  shows "\<exists>tokens. VP8LCreateCompressedHuffmanTree tree max_tokens = Inr tokens \<and>
                  DecodeTokens (Some 8) tokens = Some (tree_lengths tree)"
proof -
  obtain tokens where t: "VP8LCreateCompressedHuffmanTree_loop (tree_lengths tree) max_tokens 0 8 [] = Inr tokens"
    using loop_length [OF assms(1) _ _ assms(2), of 0 "[]" 8] by auto
  have "\<exists>p. decode_tokens (Some 8) tokens = Some (p, tree_lengths tree)"
    by (rule loop_decode [OF t]) simp_all
  then show ?thesis
    using t by (auto simp: VP8LCreateCompressedHuffmanTree_def DecodeTokens_def)
qed

text \<open>
  Claim C2, witness: the array 8 8 8 0 0 0 3 with a buffer of 7 tokens.
\<close>

theorem token_round_trip_witness:
  "\<exists>tokens.
     VP8LCreateCompressedHuffmanTree
       \<lparr>num_symbols = 7, code_lengths = [8, 8, 8, 0, 0, 0, 3], codes = replicate 7 0\<rparr> 7 = Inr tokens \<and>
     DecodeTokens (Some 8) tokens = Some [8, 8, 8, 0, 0, 0, 3]"
  using token_round_trip
    [of "\<lparr>num_symbols = 7, code_lengths = [8, 8, 8, 0, 0, 0, 3], codes = replicate 7 0\<rparr>" 7]
  by (simp add: tree_lengths_def)

text \<open>
  Claim C2, counterexample to the claim as stated. The array 8 8 8 is encoded as the single
  token (16, 0): "repeat the previously emitted non-zero length 3 times", where no length
  has been emitted. An expansion that knows only previously emitted lengths does not
  reconstruct the array.
\<close>

theorem token_round_trip_no_initial_counterexample:
  "VP8LCreateCompressedHuffmanTree \<lparr>num_symbols = 3, code_lengths = [8, 8, 8], codes = [0, 0, 0]\<rparr> 3 =
     Inr [\<lparr>code = 16, extra_bits = 0\<rparr>] \<and>
   DecodeTokens None [\<lparr>code = 16, extra_bits = 0\<rparr>] \<noteq> Some [8, 8, 8]"
  by code_simp




text \<open>
  Claim C7 (as amended). A run of exactly 20 zero code lengths is encoded as the single token
  (18, 9), since \<open>20 < 139\<close>; and no token, of \<^verbatim>\<open>CodeRepeatedZeros\<close> or of the whole
  encoder, stands for more than 138 repeats.
\<close>

theorem zero_run_of_20:
  "CodeRepeatedZeros 20 [] = [\<lparr>code = 18, extra_bits = 9\<rparr>] \<and>
   VP8LCreateCompressedHuffmanTree
     \<lparr>num_symbols = 20, code_lengths = replicate 20 0, codes = replicate 20 0\<rparr> 20 =
     Inr [\<lparr>code = 18, extra_bits = 9\<rparr>] \<and>
   (\<forall>t\<in>set (CodeRepeatedZeros repetitions []). token_repeats t \<le> 138) \<and>
   (VP8LCreateCompressedHuffmanTree tree max_tokens = Inr tokens \<longrightarrow>
      (\<forall>t\<in>set tokens. token_repeats t \<le> 138))"
proof -
  have "CodeRepeatedZeros 20 [] = [\<lparr>code = 18, extra_bits = 9\<rparr>]"
    by code_simp
  moreover have "VP8LCreateCompressedHuffmanTree
     \<lparr>num_symbols = 20, code_lengths = replicate 20 0, codes = replicate 20 0\<rparr> 20 =
     Inr [\<lparr>code = 18, extra_bits = 9\<rparr>]"
    by code_simp
  moreover have "\<forall>t\<in>set (CodeRepeatedZeros repetitions []). token_repeats t \<le> 138"
    using extra_CodeRepeatedZeros by blast
  moreover have "\<forall>t\<in>set tokens. token_repeats t \<le> 138"
    if "VP8LCreateCompressedHuffmanTree tree max_tokens = Inr tokens"
    using loop_repeats [of "tree_lengths tree" max_tokens 0 8 "[]" tokens] that
    by (auto simp: VP8LCreateCompressedHuffmanTree_def)
  ultimately show ?thesis by blast
qed

text \<open>
  Claim C7, witness: a run of 300 zeros, whose tokens include (18, 127), and the array of
  300 zeros followed by 5.
\<close>

theorem zero_run_of_20_witness:
  "\<lparr>code = 18, extra_bits = 127\<rparr> \<in> set (CodeRepeatedZeros 300 []) \<and>
   token_repeats \<lparr>code = 18, extra_bits = 127\<rparr> \<le> 138 \<and>
   VP8LCreateCompressedHuffmanTree
     \<lparr>num_symbols = 301, code_lengths = replicate 300 0 @ [5], codes = replicate 301 0\<rparr> 301 =
     Inr [\<lparr>code = 18, extra_bits = 127\<rparr>, \<lparr>code = 18, extra_bits = 127\<rparr>,
          \<lparr>code = 18, extra_bits = 13\<rparr>, \<lparr>code = 5, extra_bits = 0\<rparr>] \<and>
   token_repeats \<lparr>code = 18, extra_bits = 13\<rparr> \<le> 138"
proof -
  have a: "\<lparr>code = 18, extra_bits = 127\<rparr> \<in> set (CodeRepeatedZeros 300 [])"
    by code_simp
  have b: "VP8LCreateCompressedHuffmanTree
     \<lparr>num_symbols = 301, code_lengths = replicate 300 0 @ [5], codes = replicate 301 0\<rparr> 301 =
     Inr [\<lparr>code = 18, extra_bits = 127\<rparr>, \<lparr>code = 18, extra_bits = 127\<rparr>,
          \<lparr>code = 18, extra_bits = 13\<rparr>, \<lparr>code = 5, extra_bits = 0\<rparr>]"
    by code_simp
  from zero_run_of_20 [of 300 "\<lparr>num_symbols = 301, code_lengths = replicate 300 0 @ [5], codes = replicate 301 0\<rparr>" 301] a b show ?thesis
    by simp
qed

text \<open>
  Claim C7, counterexample to the claim as stated: the tokens of a run of 20 zeros are not
  (18, 7) followed by two literal zeros.
\<close>

theorem zero_run_of_20_counterexample:
  "CodeRepeatedZeros 20 [] \<noteq>
     [\<lparr>code = 18, extra_bits = 7\<rparr>, \<lparr>code = 0, extra_bits = 0\<rparr>, \<lparr>code = 0, extra_bits = 0\<rparr>]"
  by code_simp

text \<open>
  Claim C10. For code lengths in 0..15 the encoder writes at most \<^verbatim>\<open>num_symbols\<close> tokens,
  and with \<open>max_tokens \<ge> num_symbols\<close> the assertion on the token cursor does not fail:
  the result is \<open>Inr\<close>.
\<close>

theorem token_count_bound:
  assumes "\<forall>x\<in>set (tree_lengths tree). x \<le> 15" "int (num_symbols tree) \<le> max_tokens"
    "num_symbols tree \<le> length (code_lengths tree)"
  shows "\<exists>tokens. VP8LCreateCompressedHuffmanTree tree max_tokens = Inr tokens \<and>
                  length tokens \<le> num_symbols tree"
  using loop_length [OF assms(1), of 0 "[]" max_tokens 8] assms(2,3)
  by (simp add: VP8LCreateCompressedHuffmanTree_def tree_lengths_def)

text \<open>
  Claim C10, witness: the array 0 1 1 1 1 2 with a buffer of 6 tokens.
\<close>

theorem token_count_bound_witness:
  "\<exists>tokens.
     VP8LCreateCompressedHuffmanTree
       \<lparr>num_symbols = 6, code_lengths = [0, 1, 1, 1, 1, 2], codes = replicate 6 0\<rparr> 6 = Inr tokens \<and>
     length tokens \<le> 6"
  using token_count_bound
    [of "\<lparr>num_symbols = 6, code_lengths = [0, 1, 1, 1, 1, 2], codes = replicate 6 0\<rparr>" 6]
  by (simp add: tree_lengths_def)

section \<open>Properties of the canonical code assignment\<close>

lemma kReversedBits_table:
  "\<forall>u\<in>set [0..<16]. \<forall>j\<in>set [0..<32]. bit (kReversedBits ! u) j \<longleftrightarrow> j < 4 \<and> bit u (3 - j)"
  by code_simp

lemma kReversedBits_nibble:
  fixes w :: "32 word"
  shows "bit (kReversedBits ! unat (w AND 0xf)) j \<longleftrightarrow> j < 4 \<and> bit w (3 - j)"
proof -
  define u where "u = unat (w AND 0xf)"
  have "w AND 0xf \<le> 0xf" by (rule word_and_le1)
  then have u: "u < 16" unfolding u_def by (simp add: word_le_nat_alt)
  have m: "(0xf :: 32 word) = mask 4" by (simp add: mask_eq_exp_minus_1)
  have bw: "bit u i \<longleftrightarrow> bit w i" if "i < 4" for i
    using that unfolding u_def m by (simp add: bit_simps)
  show ?thesis
  proof (cases "j < 32")
    case True
    with kReversedBits_table u
    have "bit (kReversedBits ! u) j \<longleftrightarrow> j < 4 \<and> bit u (3 - j)" by auto
    then show ?thesis using bw [of "3 - j"] by (auto simp: u_def)
  next
    case False
    then have "\<not> bit (kReversedBits ! u) j"
      using bit_imp_le_length [of "kReversedBits ! u" j] by auto
    then show ?thesis using False by (simp add: u_def)
  qed
qed

lemma ReverseBits_loop_bits:
  assumes "i mod 4 = 0" "0 \<le> i" "i < n + 4" "n \<le> 16"
    "\<And>p. bit retval p \<longleftrightarrow> 16 - i \<le> int p \<and> p < 16 \<and> bit w (15 - p)"
    "16 - n \<le> int p"
  shows "bit (ReverseBits_loop n i (drop_bit (nat i) w) retval) p \<longleftrightarrow> p < 16 \<and> bit w (15 - p)"
  using assms
proof (induction n i "drop_bit (nat i) w" retval arbitrary: rule: ReverseBits_loop.induct)
  case (1 n i retval)
  show ?case
  proof (cases "i < n")
    case False
    then have "ReverseBits_loop n i (drop_bit (nat i) w) retval = retval"
      by (subst ReverseBits_loop.simps) simp
    then show ?thesis using 1(6,7) False by simp
  next
    case True
    have i12: "i \<le> 12" using True 1(2,3,5) by presburger
    let ?r = "retval OR push_bit (nat (int MAX_ALLOWED_CODE_LENGTH + 1 - (i + 4)))
                       (kReversedBits ! unat (drop_bit (nat i) w AND 0xf))"
    have d: "drop_bit 4 (drop_bit (nat i) w) = drop_bit (nat (i + 4)) w"
      using 1(3) by (simp add: nat_add_distrib add.commute)
    have eq: "ReverseBits_loop n i (drop_bit (nat i) w) retval =
        ReverseBits_loop n (i + 4) (drop_bit (nat (i + 4)) w) ?r"
      using True d by (subst ReverseBits_loop.simps) simp
    have inv: "bit ?r p \<longleftrightarrow> 16 - (i + 4) \<le> int p \<and> p < 16 \<and> bit w (15 - p)" for p
    proof -
      have sh: "nat (int MAX_ALLOWED_CODE_LENGTH + 1 - (i + 4)) = nat (12 - i)"
        by (simp add: MAX_ALLOWED_CODE_LENGTH_def)
      have "bit ?r p \<longleftrightarrow> (16 - i \<le> int p \<and> p < 16 \<and> bit w (15 - p)) \<or>
          (nat (12 - i) \<le> p \<and> p < 32 \<and> p - nat (12 - i) < 4 \<and> bit w (nat i + (3 - (p - nat (12 - i)))))"
        unfolding sh
        by (simp add: bit_or_iff bit_push_bit_iff kReversedBits_nibble 1(6) bit_drop_bit_eq) 
      also have "\<dots> \<longleftrightarrow> 16 - (i + 4) \<le> int p \<and> p < 16 \<and> bit w (15 - p)"
      proof (cases "nat (12 - i) \<le> p \<and> p - nat (12 - i) < 4")
        case True
        then have "nat i + (3 - (p - nat (12 - i))) = 15 - p" using i12 1(3) by linarith
        then show ?thesis using True i12 1(3) by auto
      next
        case False
        then show ?thesis using i12 1(3) by auto
      qed
      finally show ?thesis .
    qed
    have "bit (ReverseBits_loop n (i + 4) (drop_bit (nat (i + 4)) w) ?r) p \<longleftrightarrow> p < 16 \<and> bit w (15 - p)"
    proof (rule 1(1) [OF True d _ _ _ 1(5) _ 1(7)])
      show "(i + 4) mod 4 = 0" using 1(2) by presburger
      show "0 \<le> i + 4" using 1(3) by simp
      show "i + 4 < n + 4" using True by simp
      show "bit ?r p \<longleftrightarrow> 16 - (i + 4) \<le> int p \<and> p < 16 \<and> bit w (15 - p)" for p
        by (rule inv)
    qed
    then show ?thesis using eq by simp
  qed
qed

lemma ReverseBits_bits:
  assumes "0 \<le> n" "n \<le> 16"
  shows "bit (ReverseBits n w) b \<longleftrightarrow> int b < n \<and> bit w (nat n - 1 - b)"
proof -
  have sh: "nat (int MAX_ALLOWED_CODE_LENGTH + 1 - n) = nat (16 - n)"
    by (simp add: MAX_ALLOWED_CODE_LENGTH_def)
  have loop: "bit (ReverseBits_loop n 0 w 0) p \<longleftrightarrow> p < 16 \<and> bit w (15 - p)" if "16 - n \<le> int p" for p
    using ReverseBits_loop_bits [of 0 n 0 w p] assms that by simp
  have "bit (ReverseBits n w) b \<longleftrightarrow> bit (ReverseBits_loop n 0 w 0) (nat (16 - n) + b)"
    unfolding ReverseBits_def sh by (simp add: bit_drop_bit_eq)
  also have "\<dots> \<longleftrightarrow> nat (16 - n) + b < 16 \<and> bit w (15 - (nat (16 - n) + b))"
    using assms by (intro loop) simp
  also have "\<dots> \<longleftrightarrow> int b < n \<and> bit w (nat n - 1 - b)"
  proof (cases "int b < n")
    case True
    then have "15 - (nat (16 - n) + b) = nat n - 1 - b" using assms by linarith
    then show ?thesis using True assms by auto
  next
    case False
    then show ?thesis using assms by auto
  qed
  finally show ?thesis .
qed

lemma count_depths_result:
  assumes "\<forall>l\<in>set ls. l \<le> 15" "length dc = 16"
  shows "\<exists>dc'. count_depths ls dc = Inr dc' \<and> length dc' = 16 \<and>
           (\<forall>l<16. dc' ! l = dc ! l + int (count_list ls l))"
  using assms
proof (induction ls arbitrary: dc)
  case Nil
  then show ?case by simp
next
  case (Cons a ls)
  let ?dc = "dc[a := dc ! a + 1]"
  have a: "a \<le> 15" using Cons.prems by simp
  from Cons.IH [of ?dc] Cons.prems obtain dc' where
    dc': "count_depths ls ?dc = Inr dc'" "length dc' = 16"
      "\<forall>l<16. dc' ! l = ?dc ! l + int (count_list ls l)"
    by auto
  have "dc' ! l = dc ! l + int (count_list (a # ls) l)" if "l < 16" for l
    using dc'(3) that Cons.prems(2) a by (cases "l = a") auto
  then show ?case
    using dc' a by (simp add: MAX_ALLOWED_CODE_LENGTH_def)
qed

lemma count_depths_error:
  "\<not> (\<forall>l\<in>set ls. l \<le> 15) \<Longrightarrow> count_depths ls dc = Inl AssertionFailure"
  by (induction ls arbitrary: dc) (auto simp: MAX_ALLOWED_CODE_LENGTH_def)

lemma fill_next_code_result:
  assumes "1 \<le> i" "i \<le> 16" "length nc = 16" 
    "\<forall>m<16. dc ! m = int (used_count ls m)"
    "code' = word_of_nat (first_code ls (i - 1))"
    "\<forall>m<i. nc ! m = word_of_nat (first_code ls m)"
  shows "length (fill_next_code dc i code' nc) = 16 \<and>
         (\<forall>m<16. fill_next_code dc i code' nc ! m = word_of_nat (first_code ls m))"
  using assms
proof (induction dc i code' nc rule: fill_next_code.induct)
  case (1 dc i code' nc)
  show ?case
  proof (cases "i \<le> 15")
    case False
    then have "fill_next_code dc i code' nc = nc"
      by (subst fill_next_code.simps) (simp add: MAX_ALLOWED_CODE_LENGTH_def)
    then show ?thesis using 1 False by auto
  next
    case True
    define c where "c = push_bit 1 (code' + word_of_int (dc ! (i - 1)))"
    have eq: "fill_next_code dc i code' nc = fill_next_code dc (i + 1) c (nc[i := c])"
      using True by (subst fill_next_code.simps) (simp add: MAX_ALLOWED_CODE_LENGTH_def c_def Let_def)
    obtain j where j: "i = Suc j" using 1(2) by (cases i) auto
    have "dc ! j = int (used_count ls j)" using 1(5) True j by simp
    then have c: "c = word_of_nat (first_code ls i)"
      using 1(6) by (simp add: c_def j push_bit_eq_mult)
    have "length (fill_next_code dc (i + 1) c (nc[i := c])) = 16 \<and>
         (\<forall>m<16. fill_next_code dc (i + 1) c (nc[i := c]) ! m = word_of_nat (first_code ls m))"
    proof (rule 1(1) [OF _ c_def])
      show "i \<le> MAX_ALLOWED_CODE_LENGTH" using True by (simp add: MAX_ALLOWED_CODE_LENGTH_def)
      show "1 \<le> i + 1" "i + 1 \<le> 16" using True by simp_all
      show "length (nc[i := c]) = 16" using 1(4) by simp
      show "\<forall>m<16. dc ! m = int (used_count ls m)" by (rule 1(5))
      show "c = word_of_nat (first_code ls (i + 1 - 1))" using c by simp
      show "\<forall>m<i + 1. nc[i := c] ! m = word_of_nat (first_code ls m)"
        using 1(7) c 1(4) True by (auto simp: nth_list_update less_Suc_eq)
    qed
    then show ?thesis using eq by simp
  qed
qed

lemma initial_next_code_result:
  assumes "\<forall>l\<in>set ls. l \<le> 15"
  shows "\<exists>nc. initial_next_code ls = Inr nc \<and> length nc = 16 \<and>
           (\<forall>m<16. nc ! m = word_of_nat (first_code ls m))"
proof -
  from count_depths_result [OF assms, of "replicate 16 0"] obtain dc where
    dc: "count_depths ls (replicate 16 0) = Inr dc" "length dc = 16"
      "\<forall>l<16. dc ! l = int (count_list ls l)"
    by auto
  have u: "\<forall>m<16. dc[0 := 0] ! m = int (used_count ls m)"
    using dc(2,3) by (auto simp: used_count_def nth_list_update)
  have "length (fill_next_code (dc[0 := 0]) 1 0 ((replicate 16 0)[0 := 0])) = 16 \<and>
        (\<forall>m<16. fill_next_code (dc[0 := 0]) 1 0 ((replicate 16 0)[0 := 0]) ! m = word_of_nat (first_code ls m))"
    by (rule fill_next_code_result [OF _ _ _ u]) simp_all
  then show ?thesis
    using dc(1) by (simp add: initial_next_code_def MAX_ALLOWED_CODE_LENGTH_def)
qed

lemma unreversed_codes_length [simp]: "length (unreversed_codes ls nc) = length ls"
  by (induction ls arbitrary: nc) simp_all

lemma unreversed_codes_nth:
  "i < length ls \<Longrightarrow> ls ! i < length nc \<Longrightarrow>
   unreversed_codes ls nc ! i = nc ! (ls ! i) + word_of_nat (count_list (take i ls) (ls ! i))"
proof (induction ls arbitrary: nc i)
  case Nil
  then show ?case by simp
next
  case (Cons a ls)
  show ?case
  proof (cases i)
    case 0
    then show ?thesis by simp
  next
    case (Suc j)
    then show ?thesis
      using Cons.prems Cons.IH [of j "nc[a := nc ! a + 1]"]
      by (auto simp: nth_list_update)
  qed
qed

lemma assign_codes_length [simp]: "length (assign_codes ls nc) = length ls"
  by (induction ls arbitrary: nc) simp_all

lemma assign_codes_nth:
  "i < length ls \<Longrightarrow>
   assign_codes ls nc ! i = ReverseBits (int (ls ! i)) (unreversed_codes ls nc ! i)"
proof (induction ls arbitrary: nc i)
  case Nil
  then show ?case by simp
next
  case (Cons a ls)
  then show ?case by (cases i) auto
qed

lemma count_list_take_less:
  assumes "i < j" "j \<le> length ls" "ls ! i = v"
  shows "count_list (take i ls) v < count_list (take j ls) v"
proof -
  obtain d where d: "j = i + Suc d" using assms(1) less_iff_Suc_add by auto
  have "i < length ls" using assms(1,2) by simp
  then have "drop i ls = ls ! i # drop (Suc i) ls"
    by (simp add: Cons_nth_drop_Suc)
  moreover have "take (i + Suc d) ls = take i ls @ take (Suc d) (drop i ls)"
    by (rule take_add)
  ultimately have "take j ls = take i ls @ ls ! i # take d (drop (Suc i) ls)"
    unfolding d by simp
  then show ?thesis using assms(3) by simp
qed

lemma count_list_take_less_total:
  assumes "i < length ls" "ls ! i = v"
  shows "count_list (take i ls) v < count_list ls v"
  using count_list_take_less [of i "length ls" ls v] assms by simp

lemma first_code_bound:
  "2 * (first_code ls l + used_count ls l) \<le> 2 ^ l * length (filter (\<lambda>x. 0 < x \<and> x \<le> l) ls)"
proof (induction l)
  case 0
  then show ?case by (simp add: used_count_def)
next
  case (Suc l)
  have split: "length (filter (\<lambda>x. 0 < x \<and> x \<le> Suc l) ls) =
      length (filter (\<lambda>x. 0 < x \<and> x \<le> l) ls) + count_list ls (Suc l)"
    by (induction ls) auto
  have "2 * (first_code ls (Suc l) + used_count ls (Suc l)) =
      2 * (2 * (first_code ls l + used_count ls l)) + 2 * count_list ls (Suc l)"
    by (simp add: used_count_def)
  also have "\<dots> \<le> 2 * (2 ^ l * length (filter (\<lambda>x. 0 < x \<and> x \<le> l) ls)) + 2 * count_list ls (Suc l)"
    using Suc by simp
  also have "\<dots> \<le> 2 * (2 ^ l * length (filter (\<lambda>x. 0 < x \<and> x \<le> l) ls)) + 2 ^ Suc l * count_list ls (Suc l)"
  proof -
    have "(2::nat) \<le> 2 ^ Suc l" by simp
    then have "2 * count_list ls (Suc l) \<le> 2 ^ Suc l * count_list ls (Suc l)"
      by (rule mult_le_mono1)
    then show ?thesis by simp
  qed
  also have "\<dots> = 2 ^ Suc l * length (filter (\<lambda>x. 0 < x \<and> x \<le> Suc l) ls)"
    by (simp add: split algebra_simps)
  finally show ?case .
qed

lemma first_code_no_wrap:
  assumes "length ls \<le> 2 ^ 18" "l \<le> 15"
  shows "first_code ls l + used_count ls l \<le> 2 ^ 32"
proof -
  have "2 * (first_code ls l + used_count ls l) \<le> 2 ^ l * length (filter (\<lambda>x. 0 < x \<and> x \<le> l) ls)"
    by (rule first_code_bound)
  also have "\<dots> \<le> 2 ^ l * length ls"
    by (simp add: mult_le_mono2)
  also have "\<dots> \<le> 2 ^ 15 * length ls"
    using assms(2) by (intro mult_le_mono1 power_increasing) simp_all
  also have "\<dots> \<le> 2 ^ 15 * 2 ^ 18"
    using assms(1) by simp
  finally show ?thesis by simp
qed

lemma first_code_mono: "l \<le> m \<Longrightarrow> first_code ls l \<le> first_code ls m"
proof (induction m)
  case 0
  then show ?case by simp
next
  case (Suc m)
  then show ?case by (cases "l = Suc m") auto
qed

lemma first_code_next:
  assumes "l < m"
  shows "first_code ls l + used_count ls l \<le> first_code ls m"
proof -
  have "first_code ls l + used_count ls l \<le> first_code ls (Suc l)" by simp
  also have "\<dots> \<le> first_code ls m" using assms by (intro first_code_mono) simp
  finally show ?thesis .
qed

text \<open>The value before reversal, as a natural number.\<close>

lemma unat_unreversed:
  assumes "\<forall>l\<in>set ls. l \<le> 15" "length ls \<le> 2 ^ 18" "initial_next_code ls = Inr nc"
    "i < length ls" "ls ! i \<noteq> 0"
  shows "unat (unreversed_codes ls nc ! i) = first_code ls (ls ! i) + count_list (take i ls) (ls ! i)"
    and "first_code ls (ls ! i) + count_list (take i ls) (ls ! i) < first_code ls (ls ! i) + used_count ls (ls ! i)"
proof -
  from initial_next_code_result [OF assms(1)] assms(3)
  have nc: "length nc = 16" "\<forall>m<16. nc ! m = word_of_nat (first_code ls m)" by auto
  have l15: "ls ! i \<le> 15" using assms(1,4) by simp
  have "unreversed_codes ls nc ! i = nc ! (ls ! i) + word_of_nat (count_list (take i ls) (ls ! i))"
    using assms(4) l15 nc(1) by (intro unreversed_codes_nth) simp_all
  then have w: "unreversed_codes ls nc ! i =
      word_of_nat (first_code ls (ls ! i) + count_list (take i ls) (ls ! i))"
    using nc(2) l15 by simp
  show lt: "first_code ls (ls ! i) + count_list (take i ls) (ls ! i) < first_code ls (ls ! i) + used_count ls (ls ! i)"
    using count_list_take_less_total [OF assms(4) refl] assms(5) by (simp add: used_count_def)
  have "first_code ls (ls ! i) + count_list (take i ls) (ls ! i) < 2 ^ 32"
    using lt first_code_no_wrap [OF assms(2) l15] by simp
  then show "unat (unreversed_codes ls nc ! i) = first_code ls (ls ! i) + count_list (take i ls) (ls ! i)"
    unfolding w by (intro of_nat_inverse [OF refl]) simp
qed

lemma canonical_order:
  assumes "\<forall>l\<in>set ls. l \<le> 15" "length ls \<le> 2 ^ 18" "initial_next_code ls = Inr nc"
    "i < length ls" "j < length ls" "ls ! i \<noteq> 0"
  shows "i < j \<Longrightarrow> ls ! i = ls ! j \<Longrightarrow> unreversed_codes ls nc ! i < unreversed_codes ls nc ! j"
    and "ls ! i < ls ! j \<Longrightarrow> unreversed_codes ls nc ! i < unreversed_codes ls nc ! j"
proof -
  note ui = unat_unreversed [OF assms(1-3) assms(4) assms(6)]
  {
    assume ij: "i < j" "ls ! i = ls ! j"
    then have "ls ! j \<noteq> 0" using assms(6) by simp
    note uj = unat_unreversed [OF assms(1-3) assms(5) this]
    have "count_list (take i ls) (ls ! i) < count_list (take j ls) (ls ! i)"
      using ij(1) assms(5) by (intro count_list_take_less) simp_all
    then show "unreversed_codes ls nc ! i < unreversed_codes ls nc ! j"
      using ui(1) uj(1) ij(2) by (simp add: word_less_nat_alt)
  }
  {
    assume lt: "ls ! i < ls ! j"
    then have "ls ! j \<noteq> 0" by simp
    note uj = unat_unreversed [OF assms(1-3) assms(5) this]
    have "unat (unreversed_codes ls nc ! i) < first_code ls (ls ! i) + used_count ls (ls ! i)"
      using ui by simp
    also have "\<dots> \<le> first_code ls (ls ! j)"
      using lt by (rule first_code_next)
    also have "\<dots> \<le> unat (unreversed_codes ls nc ! j)"
      using uj(1) by simp
    finally show "unreversed_codes ls nc ! i < unreversed_codes ls nc ! j"
      by (simp add: word_less_nat_alt)
  }
qed

lemma count_list_replicate: "count_list (replicate n x) y = (if x = y then n else 0)"
  by (induction n) auto

lemma first_code_numeral:
  "first_code ls (numeral k) =
     2 * (first_code ls (pred_numeral k) + used_count ls (pred_numeral k))"
  by (simp add: numeral_eq_Suc)

lemma first_code_1: "first_code ls 1 = 0"
  by (simp add: used_count_def)

lemma first_code_wrap_example:
  assumes "ls = replicate 262144 1 @ [15]"
  shows "first_code ls 15 = 4294967296"
proof -
  have c: "used_count ls l = (if l = 1 then 262144 else if l = 15 then 1 else 0)" for l
    unfolding assms by (simp add: used_count_def count_list_replicate)
  have c0: "used_count ls 0 = 0" "used_count ls (Suc 0) = 262144"
    using c [of 0] c [of 1] by simp_all
  show ?thesis
    by (simp add: first_code_numeral first_code_1 c c0)
qed

subsection \<open>The claim about the canonical code\<close>

text \<open>
  Claim C4 (as amended). For every table of at most \<open>2 ^ 18\<close> symbols with code lengths in
  0..15, \<^verbatim>\<open>ConvertBitDepthsToSymbols\<close> succeeds and the values before reversal satisfy:
  among used symbols of equal length the value increases with the symbol index; a value of a
  shorter length is smaller than a value of a longer length; and bit \<open>b\<close> of the stored code
  of a symbol of length \<open>n\<close> is bit \<open>n - 1 - b\<close> of its value before reversal, for \<open>b < n\<close>,
  and is clear for \<open>b \<ge> n\<close>.
\<close>

theorem canonical_codes:
  assumes "\<forall>l\<in>set (tree_lengths tree). l \<le> 15" "length (tree_lengths tree) \<le> 2 ^ 18"
  shows "\<exists>tree' pre.
     ConvertBitDepthsToSymbols tree = Inr tree' \<and> codes_before_reversal tree = Inr pre \<and>
     length pre = length (tree_lengths tree) \<and> code_lengths tree' = code_lengths tree \<and>
     (\<forall>i j. i < j \<and> j < length pre \<and> tree_lengths tree ! i = tree_lengths tree ! j \<and>
            tree_lengths tree ! i \<noteq> 0 \<longrightarrow> pre ! i < pre ! j) \<and>
     (\<forall>i j. i < length pre \<and> j < length pre \<and> 0 < tree_lengths tree ! i \<and>
            tree_lengths tree ! i < tree_lengths tree ! j \<longrightarrow> pre ! i < pre ! j) \<and>
     (\<forall>i b. i < length pre \<longrightarrow>
            (bit (codes tree' ! i) b \<longleftrightarrow>
             b < tree_lengths tree ! i \<and> bit (pre ! i) (tree_lengths tree ! i - 1 - b)))"
proof -
  define ls where "ls = tree_lengths tree"
  from initial_next_code_result [of ls] assms(1) obtain nc where
    nc: "initial_next_code ls = Inr nc"
    by (auto simp: ls_def)
  define pre where "pre = unreversed_codes ls nc"
  define tree' where "tree' = tree\<lparr>codes := assign_codes ls nc @ drop (num_symbols tree) (codes tree)\<rparr>"
  have a: "ConvertBitDepthsToSymbols tree = Inr tree'"
    using nc by (simp add: ConvertBitDepthsToSymbols_def ls_def tree'_def)
  have b: "codes_before_reversal tree = Inr pre"
    using nc by (simp add: codes_before_reversal_def ls_def pre_def)
  have len: "length pre = length ls" by (simp add: pre_def)
  have all: "\<forall>l\<in>set ls. l \<le> 15" and sz: "length ls \<le> 2 ^ 18"
    using assms by (simp_all add: ls_def)
  have o1: "pre ! i < pre ! j" if "i < j" "j < length pre" "ls ! i = ls ! j" "ls ! i \<noteq> 0" for i j
    unfolding pre_def using that len
    by (intro canonical_order(1) [OF all sz nc]) simp_all
  have o2: "pre ! i < pre ! j" if "i < length pre" "j < length pre" "0 < ls ! i" "ls ! i < ls ! j" for i j
    unfolding pre_def using that len
    by (intro canonical_order(2) [OF all sz nc]) simp_all
  have r: "bit (codes tree' ! i) b \<longleftrightarrow> b < ls ! i \<and> bit (pre ! i) (ls ! i - 1 - b)"
    if "i < length pre" for i b
  proof -
    have "ls ! i \<le> 15" using all that len by simp
    moreover have "codes tree' ! i = ReverseBits (int (ls ! i)) (pre ! i)"
      using that len by (simp add: tree'_def nth_append assign_codes_nth pre_def)
    ultimately show ?thesis
      using ReverseBits_bits [of "int (ls ! i)" "pre ! i" b] by simp
  qed
  have "code_lengths tree' = code_lengths tree" by (simp add: tree'_def)
  with a b len o1 o2 r show ?thesis
    unfolding ls_def by (intro exI [of _ tree'] exI [of _ pre]) simp
qed

text \<open>
  Claim C4, witness: the lengths 2 1 3 3 0, with the values 2 0 6 7 before reversal and the
  stored codes 1 0 3 7.
\<close>

theorem canonical_codes_witness:
  "\<exists>tree' pre.
     ConvertBitDepthsToSymbols
       \<lparr>num_symbols = 5, code_lengths = [2, 1, 3, 3, 0], codes = replicate 5 0\<rparr> = Inr tree' \<and>
     codes_before_reversal
       \<lparr>num_symbols = 5, code_lengths = [2, 1, 3, 3, 0], codes = replicate 5 0\<rparr> = Inr pre \<and>
     pre = [2, 0, 6, 7, 0] \<and> codes tree' = [1, 0, 3, 7, 0] \<and>
     pre ! 2 < pre ! 3 \<and> pre ! 1 < pre ! 0 \<and> pre ! 0 < pre ! 2 \<and>
     (bit (codes tree' ! 0) 0 \<longleftrightarrow> bit (pre ! 0) 1)"
proof -
  define T where "T = \<lparr>num_symbols = 5, code_lengths = [2, 1, 3, 3, 0], codes = replicate 5 0\<rparr>"
  have u: "tree_lengths T = [2, 1, 3, 3, 0]" by (simp add: T_def tree_lengths_def)
  have c: "ConvertBitDepthsToSymbols T =
      Inr \<lparr>num_symbols = 5, code_lengths = [2, 1, 3, 3, 0], codes = [1, 0, 3, 7, 0]\<rparr>"
    unfolding T_def by code_simp
  have p: "codes_before_reversal T = Inr [2, 0, 6, 7, 0]"
    unfolding T_def by code_simp
  have "\<exists>tree' pre.
     ConvertBitDepthsToSymbols T = Inr tree' \<and> codes_before_reversal T = Inr pre \<and>
     length pre = length (tree_lengths T) \<and> code_lengths tree' = code_lengths T \<and>
     (\<forall>i j. i < j \<and> j < length pre \<and> tree_lengths T ! i = tree_lengths T ! j \<and>
            tree_lengths T ! i \<noteq> 0 \<longrightarrow> pre ! i < pre ! j) \<and>
     (\<forall>i j. i < length pre \<and> j < length pre \<and> 0 < tree_lengths T ! i \<and>
            tree_lengths T ! i < tree_lengths T ! j \<longrightarrow> pre ! i < pre ! j) \<and>
     (\<forall>i b. i < length pre \<longrightarrow>
            (bit (codes tree' ! i) b \<longleftrightarrow>
             b < tree_lengths T ! i \<and> bit (pre ! i) (tree_lengths T ! i - 1 - b)))"
    by (rule canonical_codes) (simp_all add: u)
  then obtain tree' pre where
    t: "ConvertBitDepthsToSymbols T = Inr tree'" "codes_before_reversal T = Inr pre"
      "length pre = length (tree_lengths T)"
    and o1: "\<forall>i j. i < j \<and> j < length pre \<and> tree_lengths T ! i = tree_lengths T ! j \<and>
            tree_lengths T ! i \<noteq> 0 \<longrightarrow> pre ! i < pre ! j"
    and o2: "\<forall>i j. i < length pre \<and> j < length pre \<and> 0 < tree_lengths T ! i \<and>
            tree_lengths T ! i < tree_lengths T ! j \<longrightarrow> pre ! i < pre ! j"
    and r: "\<forall>i b. i < length pre \<longrightarrow>
            (bit (codes tree' ! i) b \<longleftrightarrow>
             b < tree_lengths T ! i \<and> bit (pre ! i) (tree_lengths T ! i - 1 - b))"
    by blast
  have "pre ! 2 < pre ! 3" using o1 [rule_format, of 2 3] t(3) u by simp
  moreover have "pre ! 1 < pre ! 0" using o2 [rule_format, of 1 0] t(3) u by simp
  moreover have "pre ! 0 < pre ! 2" using o2 [rule_format, of 0 2] t(3) u by simp
  moreover have "bit (codes tree' ! 0) 0 \<longleftrightarrow> bit (pre ! 0) 1"
    using r [rule_format, of 0 0] t(3) u by simp
  moreover have "pre = [2, 0, 6, 7, 0]" "codes tree' = [1, 0, 3, 7, 0]"
    using t c p by auto
  ultimately show ?thesis
    using t unfolding T_def by blast
qed

text \<open>
  Claim C4, counterexample to the claim as stated: with 262144 symbols of length 1 followed
  by one symbol of length 15, \<^verbatim>\<open>next_code[15]\<close> is \<open>2 ^ 32\<close>, which is 0 in \<^verbatim>\<open>uint32_t\<close>:
  symbol 1, of length 1, has the value 1 and symbol 262144, of length 15, has the value 0.
\<close>

theorem canonical_codes_wrap_counterexample:
  "tree_lengths \<lparr>num_symbols = 262145, code_lengths = replicate 262144 1 @ [15],
                   codes = replicate 262145 0\<rparr> ! 1 = 1 \<and>
   tree_lengths \<lparr>num_symbols = 262145, code_lengths = replicate 262144 1 @ [15],
                   codes = replicate 262145 0\<rparr> ! 262144 = 15 \<and>
   code_before_reversal \<lparr>num_symbols = 262145, code_lengths = replicate 262144 1 @ [15],
                           codes = replicate 262145 0\<rparr> 1 = Inr 1 \<and>
   code_before_reversal \<lparr>num_symbols = 262145, code_lengths = replicate 262144 1 @ [15],
                           codes = replicate 262145 0\<rparr> 262144 = Inr 0 \<and>
   \<not> (1 :: 32 word) < 0"
proof -
  define ls :: "nat list" where "ls = replicate 262144 1 @ [15]"
  define T where "T = \<lparr>num_symbols = 262145, code_lengths = ls, codes = replicate 262145 0\<rparr>"
  have u: "tree_lengths T = ls" by (simp add: T_def tree_lengths_def ls_def)
  have all: "\<forall>l\<in>set ls. l \<le> 15" by (simp add: ls_def)
  from initial_next_code_result [OF all] obtain nc where
    nc: "initial_next_code ls = Inr nc" "length nc = 16"
      "\<forall>m<16. nc ! m = word_of_nat (first_code ls m)"
    by auto
  have l1: "ls ! Suc 0 = Suc 0" and l2: "ls ! 262144 = 15"
    by (simp_all add: ls_def nth_append)
  have t1: "take (Suc 0) ls = [Suc 0]" by (simp add: ls_def take_Suc_conv_app_nth)
  have t2: "take 262144 ls = replicate 262144 1" by (simp add: ls_def)
  have "unreversed_codes ls nc ! Suc 0 =
      nc ! (ls ! Suc 0) + word_of_nat (count_list (take (Suc 0) ls) (ls ! Suc 0))"
    using nc(2) l1 by (intro unreversed_codes_nth) (simp_all add: ls_def)
  moreover have "nc ! Suc 0 = 0"
    using nc(3) by (simp add: used_count_def)
  ultimately have p1: "unreversed_codes ls nc ! 1 = 1"
    by (simp add: l1 t1)
  have "unreversed_codes ls nc ! 262144 = nc ! (ls ! 262144) + word_of_nat (count_list (take 262144 ls) (ls ! 262144))"
    using nc(2) l2 by (intro unreversed_codes_nth) (simp_all add: ls_def)
  moreover have "count_list (replicate n (1::nat)) 15 = 0" for n
    by (simp add: count_list_replicate)
  moreover have "nc ! 15 = 0"
    using nc(3) first_code_wrap_example [OF ls_def] by simp
  ultimately have p2: "unreversed_codes ls nc ! 262144 = 0"
    by (simp add: l2 t2)
  have "tree_lengths T ! 1 = 1 \<and> tree_lengths T ! 262144 = 15 \<and>
        code_before_reversal T 1 = Inr 1 \<and> code_before_reversal T 262144 = Inr 0 \<and>
        \<not> (1 :: 32 word) < 0"
    using p1 p2 l1 l2 nc(1) u
    by (simp add: code_before_reversal_def codes_before_reversal_def)
  then show ?thesis
    unfolding T_def ls_def .
qed

section \<open>Properties of the histogram smoothing\<close>


lemma fill_back_length [simp]: "length (fill_back a i stride k v) = length a"
  by (induction a i stride k v rule: fill_back.induct)
     (subst fill_back.simps, auto)

lemma fill_back_nth:
  "stride \<le> i \<Longrightarrow> i \<le> length a \<Longrightarrow> k \<le> stride \<Longrightarrow> p < length a \<Longrightarrow>
   fill_back a i stride k v ! p = (if i - stride \<le> p \<and> p < i - k then v else a ! p)"
proof (induction a i stride k v rule: fill_back.induct)
  case (1 a i stride k v)
  show ?case
  proof (cases "k < stride")
    case False
    then have "fill_back a i stride k v = a"
      by (subst fill_back.simps) simp
    then show ?thesis using False 1(2-) by auto
  next
    case True
    have eq: "fill_back a i stride k v = fill_back (a[i - k - 1 := v]) i stride (k + 1) v"
      using True by (subst fill_back.simps) simp
    have "fill_back (a[i - k - 1 := v]) i stride (k + 1) v ! p =
        (if i - stride \<le> p \<and> p < i - (k + 1) then v else a[i - k - 1 := v] ! p)"
      using True 1(2-) by (intro 1(1)) simp_all
    then show ?thesis
      unfolding eq using True 1(2-) by (auto simp: nth_list_update)
  qed
qed

lemma stride_ends_at_len: "stride_ends good_for_rle len len limit' counts = Inr True"
  by (simp add: stride_ends_def)

lemma collapse_step_Inr:
  assumes "collapse_step good_for_rle len (i, stride, limit', stride_sum, counts) = Inr s'"
  shows "\<exists>ends counts1 limit2.
    stride_ends good_for_rle len i limit' counts = Inr ends \<and>
    (if ends \<and> stride_collapses stride stride_sum
     then \<exists>count. stride_count stride stride_sum = Inr count \<and>
            counts1 = fill_back counts i (nat stride) 0 count
     else counts1 = counts) \<and>
    s' = (i + 1, (if ends then 1 else stride + 1), limit2,
          (if ends then 0 else stride_sum) + (if i \<noteq> len then counts1 ! i else 0), counts1)"
  using assms
  by (auto simp: collapse_step_def Let_def int_add_def split: sum.splits if_splits)

lemma collapse_reaches_inv:
  assumes "collapse_reaches good_for_rle len counts0 s" "len \<le> length counts0"
  shows "case s of (i, stride, limit', stride_sum, counts) \<Rightarrow>
           0 \<le> stride \<and> stride \<le> int i \<and> i \<le> len + 1 \<and> length counts = length counts0 \<and>
           (\<forall>q. i - nat stride \<le> q \<longrightarrow> q < length counts0 \<longrightarrow> counts ! q = counts0 ! q) \<and>
           stride_sum = sum_list (map (\<lambda>q. counts0 ! q) [i - nat stride..<min i len])"
  using assms(1)
proof (induction rule: collapse_reaches.induct)
  case start
  then show ?case by simp
next
  case (step s s')
  obtain i stride limit' stride_sum counts where s: "s = (i, stride, limit', stride_sum, counts)"
    by (cases s) auto
  from step.IH s have inv: "0 \<le> stride" "stride \<le> int i" "length counts = length counts0"
    and same: "\<And>q. i - nat stride \<le> q \<Longrightarrow> q < length counts0 \<Longrightarrow> counts ! q = counts0 ! q"
    and total: "stride_sum = sum_list (map (\<lambda>q. counts0 ! q) [i - nat stride..<min i len])"
    by auto
  from step.hyps(2) s have i: "i \<le> len" by simp
  from collapse_step_Inr [OF step.hyps(3) [unfolded s]] obtain ends counts1 limit2 where
    e: "stride_ends good_for_rle len i limit' counts = Inr ends"
    and c1: "if ends \<and> stride_collapses stride stride_sum
       then \<exists>count. stride_count stride stride_sum = Inr count \<and>
              counts1 = fill_back counts i (nat stride) 0 count
       else counts1 = counts"
    and s': "s' = (i + 1, (if ends then 1 else stride + 1), limit2,
          (if ends then 0 else stride_sum) + (if i \<noteq> len then counts1 ! i else 0), counts1)"
    by blast
  have len1: "length counts1 = length counts0"
    using c1 inv(3) by (auto split: if_splits)
  have keep: "counts1 ! q = counts0 ! q" if "i \<le> q" "q < length counts0" for q
  proof -
    have "counts1 ! q = counts ! q"
    proof (cases "ends \<and> stride_collapses stride stride_sum")
      case True
      with c1 obtain count where "counts1 = fill_back counts i (nat stride) 0 count" by auto
      moreover have "fill_back counts i (nat stride) 0 count ! q = counts ! q"
        using inv i assms(2) that by (subst fill_back_nth) auto
      ultimately show ?thesis by simp
    next
      case False
      with c1 show ?thesis by auto
    qed
    also have "counts ! q = counts0 ! q"
      using that by (intro same) auto
    finally show ?thesis .
  qed
  show ?case
  proof (cases ends)
    case True
    have "(if i \<noteq> len then counts1 ! i else 0) =
        sum_list (map (\<lambda>q. counts0 ! q) [i..<min (i + 1) len])"
    proof (cases "i = len")
      case True
      then show ?thesis by simp
    next
      case False
      with i have lt: "i < len" by simp
      then have "min (i + 1) len = Suc i" by simp
      then show ?thesis using lt keep [of i] assms(2) False by simp
    qed
    then show ?thesis
      using True s' len1 keep i by auto
  next
    case False
    have ne: "i \<noteq> len"
      using False e by (auto simp: stride_ends_at_len)
    with i have lt: "i < len" by simp
    have c: "counts1 = counts" using c1 False by simp
    have n: "nat (stride + 1) = Suc (nat stride)" using inv(1) by simp
    have le: "nat stride \<le> i" using inv by simp
    have m: "min (Suc i) len = Suc i" "min i len = i" using lt by simp_all
    have "counts ! i = counts0 ! i" using same [of i] lt assms(2) by simp
    then have "stride_sum + counts ! i =
        sum_list (map (\<lambda>q. counts0 ! q) [i + 1 - nat (stride + 1)..<min (i + 1) len])"
      using total le by (simp add: n m)
    moreover have "\<forall>q. i + 1 - nat (stride + 1) \<le> q \<longrightarrow> q < length counts0 \<longrightarrow>
        counts ! q = counts0 ! q"
      using same by (simp add: n)
    ultimately show ?thesis
      using False s' c ne inv lt by simp
  qed
qed


lemma trim_length_le: "trim_length counts n \<le> n"
  by (induction n) auto

lemma collapse_loop_from:
  assumes "collapse_reaches good_for_rle len counts0 s"
  shows "collapse_loop good_for_rle len (0, 0, counts0 ! 0, 0, counts0) =
         collapse_loop good_for_rle len s"
  using assms
proof (induction rule: collapse_reaches.induct)
  case start
  show ?case by simp
next
  case (step s s')
  have "collapse_loop good_for_rle len s = collapse_loop good_for_rle len s'"
    using step.hyps(2,3) by (subst collapse_loop.simps) simp
  with step.IH show ?case by simp
qed

lemma collapse_loop_keeps:
  "len \<le> length counts0 \<Longrightarrow> collapse_reaches good_for_rle len counts0 s \<Longrightarrow>
   collapse_loop good_for_rle len s = Inr result \<Longrightarrow> q < fst s - nat (fst (snd s)) \<Longrightarrow>
   result ! q = state_counts s ! q"
proof (induction good_for_rle len s rule: collapse_loop.induct)
  case (1 good_for_rle len s)
  show ?case
  proof (cases "fst s < len + 1")
    case False
    then have "collapse_loop good_for_rle len s = Inr (state_counts s)"
      by (subst collapse_loop.simps) (simp add: state_counts_def)
    with "1.prems"(3) show ?thesis by simp
  next
    case True
    from "1.prems"(3) True obtain s' where
      st: "collapse_step good_for_rle len s = Inr s'"
      and loop: "collapse_loop good_for_rle len s' = Inr result"
      by (subst (asm) collapse_loop.simps) (auto split: sum.splits)
    have reach': "collapse_reaches good_for_rle len counts0 s'"
      using "1.prems"(2) True st by (rule collapse_reaches.step)
    obtain i stride limit' stride_sum counts where s: "s = (i, stride, limit', stride_sum, counts)"
      by (cases s) auto
    from collapse_reaches_inv [OF "1.prems"(2,1)] s
    have inv: "0 \<le> stride" "stride \<le> int i" "length counts = length counts0" by auto
    from True s have i: "i \<le> len" by simp
    from "1.prems"(4) s have q: "q < i - nat stride" by simp
    from collapse_step_Inr [OF st [unfolded s]] obtain ends counts1 limit2 where
      c1: "if ends \<and> stride_collapses stride stride_sum
         then \<exists>count. stride_count stride stride_sum = Inr count \<and>
                counts1 = fill_back counts i (nat stride) 0 count
         else counts1 = counts"
      and s': "s' = (i + 1, (if ends then 1 else stride + 1), limit2,
            (if ends then 0 else stride_sum) + (if i \<noteq> len then counts1 ! i else 0), counts1)"
      by blast
    have "q < fst s' - nat (fst (snd s'))"
      using q s' inv by (auto split: if_splits)
    from "1.IH" [OF True st "1.prems"(1) reach' loop this]
    have "result ! q = state_counts s' ! q" .
    also have "state_counts s' = counts1"
      using s' by (simp add: state_counts_def)
    also have "counts1 ! q = counts ! q"
    proof (cases "ends \<and> stride_collapses stride stride_sum")
      case True
      with c1 obtain count where "counts1 = fill_back counts i (nat stride) 0 count" by auto
      moreover have "fill_back counts i (nat stride) 0 count ! q = counts ! q"
        using inv i "1.prems"(1) q by (subst fill_back_nth) auto
      ultimately show ?thesis by simp
    next
      case False
      with c1 show ?thesis by auto
    qed
    finally show ?thesis using s by (simp add: state_counts_def)
  qed
qed

lemma stride_count_Inr:
  "stride_count stride stride_sum = Inr count \<Longrightarrow>
   count = (if stride_sum = 0 then 0 else max 1 ((stride_sum + stride sdiv 2) sdiv stride))"
  by (auto simp: stride_count_def rounded_mean_def int_add_def Let_def max_def
      split: sum.splits if_splits)

lemma reach_example:
  "collapse_reaches [0, 0, 0, 0] 4 [10, 12, 11, 13] (4, 4, 12, 46, [10, 12, 11, 13])"
proof -
  let ?g = "[0, 0, 0, 0] :: nat list" and ?c = "[10, 12, 11, 13] :: int list"
  have "collapse_reaches ?g 4 ?c (0, 0, ?c ! 0, 0, ?c)"
    by (rule collapse_reaches.start)
  then have r0: "collapse_reaches ?g 4 ?c (0, 0, 10, 0, ?c)" by simp
  have s0: "collapse_step ?g 4 (0, 0, 10, 0, ?c) = Inr (1, 1, 10, 10, ?c)" by code_simp
  have s1: "collapse_step ?g 4 (1, 1, 10, 10, ?c) = Inr (2, 2, 10, 22, ?c)" by code_simp
  have s2: "collapse_step ?g 4 (2, 2, 10, 22, ?c) = Inr (3, 3, 10, 33, ?c)" by code_simp
  have s3: "collapse_step ?g 4 (3, 3, 10, 33, ?c) = Inr (4, 4, 12, 46, ?c)" by code_simp
  from collapse_reaches.step [OF r0 _ s0] have r1: "collapse_reaches ?g 4 ?c (1, 1, 10, 10, ?c)" by simp
  from collapse_reaches.step [OF r1 _ s1] have r2: "collapse_reaches ?g 4 ?c (2, 2, 10, 22, ?c)" by simp
  from collapse_reaches.step [OF r2 _ s2] have r3: "collapse_reaches ?g 4 ?c (3, 3, 10, 33, ?c)" by simp
  from collapse_reaches.step [OF r3 _ s3] show ?thesis by simp
qed

lemma OptimizeHuffmanForRle_overflow_example:
  "OptimizeHuffmanForRle alloc_succeeds 4 [2000000000, 2000000000, 2000000000, 2000000000] =
     Inl SignedOverflow"
  by code_simp

subsection \<open>The claim about collapsed strides\<close>

text \<open>
  Claim C9 (as amended). Let \<^verbatim>\<open>OptimizeHuffmanForRle\<close> return successfully, and let step 3
  reach the index \<open>i\<close> with a stride of length \<open>stride\<close> that ends there and is collapsed (its
  length is at least 4, or at least 3 with sum zero). Then the sum that the loop holds is the
  sum of the caller's counts at the positions of the stride, from \<open>i - stride\<close> to \<open>i - 1\<close>,
  and every position \<open>p\<close> of the stride holds, in the counts that the function returns, the
  rounded mean \<open>(sum + stride / 2) / stride\<close> of these counts raised to at least 1, and 0 when
  their sum is zero.
\<close>

theorem collapsed_stride_value:
  assumes "OptimizeHuffmanForRle alloc n counts0 = Inr result" "n \<le> length counts0"
    and "len = trim_length counts0 n"
    and "good_for_rle = mark_good_for_rle counts0 len 0 (counts0 ! 0) 0 (replicate len 0)"
    and "collapse_reaches good_for_rle len counts0 (i, stride, limit', stride_sum, counts)"
    and "i < len + 1" "stride_ends good_for_rle len i limit' counts = Inr True"
    and "stride_collapses stride stride_sum"
    and "i - nat stride \<le> p" "p < i"
  shows "stride_sum = stride_total counts0 i stride \<and>
         result ! p =
           (if stride_total counts0 i stride = 0 then 0
            else max 1 ((stride_total counts0 i stride + stride sdiv 2) sdiv stride))"
proof -
  let ?s = "(i, stride, limit', stride_sum, counts)"
  have len: "len \<le> length counts0"
    using assms(2,3) trim_length_le [of counts0 n] by simp
  from collapse_reaches_inv [OF assms(5) len]
  have inv: "0 \<le> stride" "stride \<le> int i" "length counts = length counts0"
    and total: "stride_sum = sum_list (map (\<lambda>q. counts0 ! q) [i - nat stride..<min i len])"
    by auto
  have i: "i \<le> len" using assms(6) by simp
  then have sum: "stride_sum = stride_total counts0 i stride"
    using total by (simp add: stride_total_def min_absorb1)
  have "3 \<le> stride" using assms(8) by (auto simp: stride_collapses_def)
  then have "0 < len" using inv(2) i by simp
  then have "collapse_loop good_for_rle len (0, 0, counts0 ! 0, 0, counts0) = Inr result"
    using assms(1,3,4) by (auto simp: OptimizeHuffmanForRle_def Let_def split: if_splits)
  then have "collapse_loop good_for_rle len ?s = Inr result"
    using collapse_loop_from [OF assms(5)] by simp
  then obtain s' where
    st: "collapse_step good_for_rle len ?s = Inr s'"
    and loop: "collapse_loop good_for_rle len s' = Inr result"
    using assms(6) by (subst (asm) collapse_loop.simps) (auto split: sum.splits)
  have reach': "collapse_reaches good_for_rle len counts0 s'"
    using assms(5) _ st by (rule collapse_reaches.step) (use assms(6) in simp)
  from collapse_step_Inr [OF st] assms(7,8) obtain count limit2 sum2 where
    cnt: "stride_count stride stride_sum = Inr count"
    and s': "s' = (i + 1, 1, limit2, sum2, fill_back counts i (nat stride) 0 count)"
    by auto
  have "p < fst s' - nat (fst (snd s'))"
    using s' assms(10) by simp
  from collapse_loop_keeps [OF len reach' loop this]
  have "result ! p = fill_back counts i (nat stride) 0 count ! p"
    using s' by (simp add: state_counts_def)
  also have "\<dots> = count"
    using inv i len assms(9,10) by (subst fill_back_nth) auto
  finally have "result ! p = count" .
  with stride_count_Inr [OF cnt] sum show ?thesis by simp
qed

text \<open>
  Claim C9, witness: the counts 10 12 11 13 form one stride of length 4 and sum 46, which
  ends at \<open>i = 4\<close>; position 2 holds \<open>(46 + 2) / 4 = 12\<close> on return.
\<close>

theorem collapsed_stride_value_witness:
  "OptimizeHuffmanForRle alloc_succeeds 4 [10, 12, 11, 13] = Inr [12, 12, 12, 12] \<and>
   stride_total [10, 12, 11, 13] 4 4 = 46 \<and>
   [12, 12, 12, 12 :: int] ! 2 = max 1 ((46 + 4 sdiv 2) sdiv 4)"
proof -
  have r: "OptimizeHuffmanForRle alloc_succeeds 4 [10, 12, 11, 13] = Inr [12, 12, 12, 12]"
    by code_simp
  have l: "4 = trim_length [10, 12, 11, 13] 4" by code_simp
  have g: "[0, 0, 0, 0] =
      mark_good_for_rle [10, 12, 11, 13] 4 0 ([10, 12, 11, 13] ! 0) 0 (replicate 4 0)"
    by code_simp
  have e: "stride_ends [0, 0, 0, 0] 4 4 12 [10, 12, 11, 13] = Inr True"
    by (simp add: stride_ends_def)
  have c: "stride_collapses 4 46" by (simp add: stride_collapses_def)
  have t: "stride_total [10, 12, 11, 13] 4 4 = 46" by code_simp
  from collapsed_stride_value [OF r _ l g reach_example _ e c, of 2] r t show ?thesis
    by simp
qed

text \<open>
  Claim C9, counterexample to the claim as stated: for the counts 0 0 0 1 the stride of length
  4 has the sum 1 and the rounded mean \<open>(1 + 2) / 4 = 0\<close>, and every position is overwritten
  with 1, not with the mean: \<^verbatim>\<open>if (count < 1) count = 1\<close>.
\<close>

theorem collapsed_stride_not_mean_counterexample:
  "mark_good_for_rle [0, 0, 0, 1] 4 0 0 0 [0, 0, 0, 0] = [0, 0, 0, 0] \<and>
   stride_total [0, 0, 0, 1] 4 4 = 1 \<and>
   rounded_mean 4 1 = Inr 0 \<and>
   collapse_step [0, 0, 0, 0] 4 (4, 4, 0, 1, [0, 0, 0, 1]) = Inr (5, 1, 0, 0, [1, 1, 1, 1]) \<and>
   OptimizeHuffmanForRle alloc_succeeds 4 [0, 0, 0, 1] = Inr [1, 1, 1, 1]"
  by code_simp

section \<open>Properties of the tree construction\<close>

lemma insertion_point_props:
  assumes "k0 \<le> tree_size"
  shows "k0 \<le> insertion_point tree tree_size count k0 \<and>
         insertion_point tree tree_size count k0 \<le> tree_size \<and>
         (\<forall>j. k0 \<le> j \<and> j < insertion_point tree tree_size count k0 \<longrightarrow> count < total_count (tree ! j)) \<and>
         (insertion_point tree tree_size count k0 < tree_size \<longrightarrow>
            total_count (tree ! insertion_point tree tree_size count k0) \<le> count)"
  using assms
proof (induction tree tree_size count k0 rule: insertion_point.induct)
  case (1 tree tree_size count k)
  show ?case
  proof (cases "k < tree_size")
    case False
    then have "insertion_point tree tree_size count k = k"
      by (subst insertion_point.simps) simp
    then show ?thesis using False 1(2) by simp
  next
    case True
    show ?thesis
    proof (cases "total_count (tree ! k) \<le> count")
      case le: True
      then have "insertion_point tree tree_size count k = k"
        using True by (subst insertion_point.simps) simp
      then show ?thesis using True le by simp
    next
      case gt: False
      then have eq: "insertion_point tree tree_size count k = insertion_point tree tree_size count (k + 1)"
        using True by (subst insertion_point.simps) simp
      have ih: "k + 1 \<le> insertion_point tree tree_size count (k + 1) \<and>
         insertion_point tree tree_size count (k + 1) \<le> tree_size \<and>
         (\<forall>j. k + 1 \<le> j \<and> j < insertion_point tree tree_size count (k + 1) \<longrightarrow> count < total_count (tree ! j)) \<and>
         (insertion_point tree tree_size count (k + 1) < tree_size \<longrightarrow>
            total_count (tree ! insertion_point tree tree_size count (k + 1)) \<le> count)"
        using True gt by (intro 1(1)) simp_all
      have "count < total_count (tree ! j)"
        if "k \<le> j" "j < insertion_point tree tree_size count (k + 1)" for j
        using that ih gt by (cases "j = k") auto
      then show ?thesis unfolding eq using ih by auto
    qed
  qed
qed

lemma merge_step_result:
  assumes "merge_step tree tree_pool = Inr (tree', tree_pool')"
  defines "count \<equiv> total_count (tree ! (length tree - 2)) + total_count (tree ! (length tree - 1))"
  defines "k \<equiv> insertion_point tree (length tree - 2) count 0"
  shows "tree' = take k tree @
           \<lparr>total_count = count, value' = - 1, pool_index_left = int (length tree_pool) + 1,
            pool_index_right = int (length tree_pool)\<rparr> # drop k (take (length tree - 2) tree)"
    and "tree_pool' = tree_pool @ [tree ! (length tree - 1), tree ! (length tree - 2)]"
    and "count \<le> INT_MAX"
  using assms(1) unfolding count_def k_def
  by (auto simp: merge_step_def Let_def nth_append split: if_splits)

lemma SetBitDepths_length:
  assumes "SetBitDepths tree pool bit_depths level = Some bit_depths'"
  shows "length bit_depths' = length bit_depths"
proof (rule SetBitDepths.raw_induct
    [where P = "\<lambda>tree pool bit_depths level bit_depths'. length bit_depths' = length bit_depths",
     OF _ assms])
  fix S tree pool and bit_depths :: "nat list" and level bit_depths'
  assume ih: "\<And>tree pool bit_depths level y. S tree pool bit_depths level = Some y \<Longrightarrow>
                length y = length bit_depths"
    and eq: "(if 0 \<le> pool_index_left tree
              then Option.bind (S (pool ! nat (pool_index_left tree)) pool bit_depths (level + 1))
                     (\<lambda>bit_depths'. S (pool ! nat (pool_index_right tree)) pool bit_depths' (level + 1))
              else Some (bit_depths[nat (value' tree) := nat (level mod 256)])) = Some bit_depths'"
  show "length bit_depths' = length bit_depths"
  proof (cases "0 \<le> pool_index_left tree")
    case True
    with eq obtain y where "S (pool ! nat (pool_index_left tree)) pool bit_depths (level + 1) = Some y"
      "S (pool ! nat (pool_index_right tree)) pool y (level + 1) = Some bit_depths'"
      by (auto simp: bind_eq_Some_conv)
    then show ?thesis using ih by metis
  next
    case False
    with eq show ?thesis by auto
  qed
qed

lemma assign_bit_depths_length:
  "assign_bit_depths histogram count_min bit_depths = Some (Inr bit_depths') \<Longrightarrow>
   length bit_depths' = length bit_depths"
  by (auto simp: assign_bit_depths_def Let_def SetBitDepths_length
      split: if_splits sum.splits prod.splits)

lemma foldl_max_ge:
  "(m::nat) \<le> foldl (\<lambda>m b. if m < b then b else m) m xs"
  "x \<in> set xs \<Longrightarrow> x \<le> foldl (\<lambda>m b. if m < b then b else m) m xs"
proof (induction xs arbitrary: m)
  case Nil
  { case 1 show ?case by simp }
  { case 2 then show ?case by simp }
next
  case (Cons a xs)
  { case 1 
    show ?case using Cons(1) [of "if m < a then a else m"] by (simp split: if_splits) }
  { case 2
    then show ?case
      using Cons(1) [of "if m < a then a else m"] Cons(2) [of "if m < a then a else m"]
      by (auto split: if_splits) }
qed

lemma max_depth_ge:
  assumes "i < n" "n \<le> length bit_depths"
  shows "bit_depths ! i \<le> max_depth bit_depths n"
proof (cases i)
  case 0
  then show ?thesis by (simp add: max_depth_def foldl_max_ge(1))
next
  case (Suc j)
  have "bit_depths ! i \<in> set (drop 1 (take n bit_depths))"
    using assms Suc by (auto simp: in_set_conv_nth intro!: exI [of _ j])
  then show ?thesis
    by (simp add: max_depth_def foldl_max_ge(2))
qed

lemma GenerateOptimalTree_loop_result:
  "GenerateOptimalTree_loop histogram tree_depth_limit bit_depths count_min = Some (Inr bit_depths') \<Longrightarrow>
   length bit_depths' = length bit_depths \<and>
   int (max_depth bit_depths' (length histogram)) \<le> tree_depth_limit"
proof (induction histogram tree_depth_limit bit_depths count_min
    rule: GenerateOptimalTree_loop.induct)
  case (1 histogram tree_depth_limit bit_depths count_min)
  from "1.prems" obtain bd where bd: "assign_bit_depths histogram count_min bit_depths = Some (Inr bd)"
    by (subst (asm) GenerateOptimalTree_loop.simps) (auto split: option.splits sum.splits)
  have len: "length bd = length bit_depths"
    using bd by (rule assign_bit_depths_length)
  show ?case
  proof (cases "int (max_depth bd (length histogram)) \<le> tree_depth_limit")
    case True
    then have "bit_depths' = bd"
      using "1.prems" bd by (subst (asm) GenerateOptimalTree_loop.simps) simp
    then show ?thesis using True len by simp
  next
    case False
    then have ok: "\<not> (count_min < 1 \<or> INT_MAX < count_min * 2)"
      and rec: "GenerateOptimalTree_loop histogram tree_depth_limit bd (count_min * 2) = Some (Inr bit_depths')"
      using "1.prems" bd by (subst (asm) GenerateOptimalTree_loop.simps, simp split: if_splits)+
    from "1.IH" [OF bd refl False ok rec] len show ?thesis by simp
  qed
qed

subsection \<open>The claims about the depth limit and the merge order\<close>

text \<open>
  Claim C1. When \<^verbatim>\<open>GenerateOptimalTree\<close> returns successfully, every returned code length
  is at most \<^verbatim>\<open>tree_depth_limit\<close>; the call then was made with at most
  \<open>2 ^ (tree_depth_limit - 1)\<close> symbols of non-zero count, as the assertion demands.
\<close>

theorem depth_limit_respected:
  assumes "GenerateOptimalTree alloc histogram tree_depth_limit bit_depths = Some (Inr bit_depths')"
    "length bit_depths = length histogram" "i < length histogram"
  shows "int (bit_depths' ! i) \<le> tree_depth_limit \<and>
         int (length (filter (\<lambda>h. h \<noteq> 0) histogram)) \<le> 2 ^ nat (tree_depth_limit - 1)"
proof -
  from assms(1) have pre: "int (length (filter (\<lambda>h. h \<noteq> 0) histogram)) \<le> 2 ^ nat (tree_depth_limit - 1)"
    and loop: "GenerateOptimalTree_loop histogram tree_depth_limit bit_depths 1 = Some (Inr bit_depths')"
    by (auto simp: GenerateOptimalTree_def Let_def split: if_splits)
  from GenerateOptimalTree_loop_result [OF loop]
  have "length bit_depths' = length bit_depths"
    "int (max_depth bit_depths' (length histogram)) \<le> tree_depth_limit"
    by simp_all
  moreover from this assms(2,3) have "bit_depths' ! i \<le> max_depth bit_depths' (length histogram)"
    by (intro max_depth_ge) simp_all
  ultimately show ?thesis using pre by simp
qed

text \<open>
  Claim C1, witness: the histogram 1 2 4 0 8 16 32 with the limit 4, for which the loop over
  \<^verbatim>\<open>count_min\<close> runs more than once.
\<close>

theorem depth_limit_respected_witness:
  "GenerateOptimalTree alloc_succeeds [1, 2, 4, 0, 8, 16, 32] 4 (replicate 7 0) =
     Some (Inr [4, 4, 4, 0, 4, 2, 1]) \<and>
   int ([4, 4, 4, 0, 4, 2, 1] ! 0) \<le> 4"
proof -
  have r: "GenerateOptimalTree alloc_succeeds [1, 2, 4, 0, 8, 16, 32] 4 (replicate 7 0) =
     Some (Inr [4, 4, 4, 0, 4, 2, 1])"
    by code_simp
  from depth_limit_respected [OF r, of 0] r show ?thesis by simp
qed

text \<open>
  Claim C8 (as amended). In one round of the merge loop on a working array sorted by
  descending count, the new internal node is placed at the first position \<open>k\<close> whose count
  is at most the new count: every node before it has a larger count, every node after it
  has a count at most the new one, so the nodes that tie with it all come after it. The
  comparer orders it before a tied leaf as well.
\<close>

theorem merged_node_precedes_ties:
  assumes "merge_step tree tree_pool = Inr (tree', tree_pool')" "2 \<le> length tree"
    "sorted_wrt (\<lambda>a b. total_count a \<ge> total_count b) tree"
  shows "\<exists>k<length tree'.
     value' (tree' ! k) = - 1 \<and>
     total_count (tree' ! k) =
       total_count (tree ! (length tree - 2)) + total_count (tree ! (length tree - 1)) \<and>
     take k tree' = take k tree \<and>
     drop (k + 1) tree' = drop k (take (length tree - 2) tree) \<and>
     (\<forall>j<k. total_count (tree' ! k) < total_count (tree' ! j)) \<and>
     (\<forall>j. k < j \<and> j < length tree' \<longrightarrow> total_count (tree' ! j) \<le> total_count (tree' ! k)) \<and>
     (\<forall>j. k < j \<and> j < length tree' \<and> total_count (tree' ! j) = total_count (tree' ! k) \<and>
          0 \<le> value' (tree' ! j) \<longrightarrow> CompareHuffmanTrees (tree' ! k) (tree' ! j) = - 1)"
proof -
  define n where "n = length tree"
  define count where "count = total_count (tree ! (n - 2)) + total_count (tree ! (n - 1))"
  define k where "k = insertion_point tree (n - 2) count 0"
  define node where "node = \<lparr>total_count = count, value' = - 1,
     pool_index_left = int (length tree_pool) + 1, pool_index_right = int (length tree_pool)\<rparr>"
  have t: "tree' = take k tree @ node # drop k (take (n - 2) tree)"
    using merge_step_result(1) [OF assms(1)] by (simp add: n_def count_def k_def node_def)
  from insertion_point_props [of 0 "n - 2" tree count]
  have k: "k \<le> n - 2" and before: "\<forall>j<k. count < total_count (tree ! j)"
    and at: "k < n - 2 \<longrightarrow> total_count (tree ! k) \<le> count"
    by (simp_all add: k_def)
  have lk: "length (take k tree) = k" using k by (simp add: n_def)
  have nk: "tree' ! k = node" unfolding t using lk by (simp add: nth_append)
  have len: "length tree' = n - 1" unfolding t using k assms(2) by (simp add: n_def)
  have after: "total_count (tree' ! j) \<le> count" if "k < j" "j < length tree'" for j
  proof -
    have j: "j - 1 < n - 2" "k \<le> j - 1" using that len by simp_all
    have "tree' ! j = tree ! (j - 1)"
      unfolding t using that lk k j by (simp add: nth_append nth_Cons' n_def)
    moreover have "total_count (tree ! (j - 1)) \<le> total_count (tree ! k)"
    proof (cases "k = j - 1")
      case True
      then show ?thesis by simp
    next
      case False
      then have "k < j - 1" using j by simp
      then show ?thesis
        using assms(3) j by (simp add: sorted_wrt_iff_nth_less n_def)
    qed
    moreover have "total_count (tree ! k) \<le> count" using at j by simp
    ultimately show ?thesis by simp
  qed
  have b: "total_count (tree' ! k) < total_count (tree' ! j)" if "j < k" for j
  proof -
    have "tree' ! j = tree ! j" unfolding t using that lk by (simp add: nth_append)
    then show ?thesis using before that nk by (simp add: node_def)
  qed
  have "k < length tree'" using len k assms(2) by (simp add: n_def)
  moreover have "value' (tree' ! k) = - 1" "total_count (tree' ! k) = count"
    using nk by (simp_all add: node_def)
  moreover have "take k tree' = take k tree" unfolding t using lk by simp
  moreover have "drop (k + 1) tree' = drop k (take (n - 2) tree)" unfolding t using lk by simp
  moreover have "CompareHuffmanTrees (tree' ! k) (tree' ! j) = - 1"
    if "total_count (tree' ! j) = total_count (tree' ! k)" "0 \<le> value' (tree' ! j)" for j
    using that nk by (simp add: CompareHuffmanTrees_def node_def)
  ultimately show ?thesis
    using after b unfolding count_def n_def
    by (intro exI [of _ k]) (simp add: nk)
qed

text \<open>
  Claim C8, witness: the leaves of counts 2 1 1.
\<close>

theorem merged_node_precedes_ties_witness:
  "merge_step [\<lparr>total_count = 2, value' = 0, pool_index_left = - 1, pool_index_right = - 1\<rparr>,
               \<lparr>total_count = 1, value' = 1, pool_index_left = - 1, pool_index_right = - 1\<rparr>,
               \<lparr>total_count = 1, value' = 2, pool_index_left = - 1, pool_index_right = - 1\<rparr>] [] =
   Inr ([\<lparr>total_count = 2, value' = - 1, pool_index_left = 1, pool_index_right = 0\<rparr>,
         \<lparr>total_count = 2, value' = 0, pool_index_left = - 1, pool_index_right = - 1\<rparr>],
        [\<lparr>total_count = 1, value' = 2, pool_index_left = - 1, pool_index_right = - 1\<rparr>,
         \<lparr>total_count = 1, value' = 1, pool_index_left = - 1, pool_index_right = - 1\<rparr>]) \<and>
   (\<exists>k<2. value' ([\<lparr>total_count = 2, value' = - 1, pool_index_left = 1, pool_index_right = 0\<rparr>,
         \<lparr>total_count = 2, value' = 0, pool_index_left = - 1, pool_index_right = - 1\<rparr>] ! k) = - 1)"
proof -
  let ?tree = "[\<lparr>total_count = 2, value' = 0, pool_index_left = - 1, pool_index_right = - 1\<rparr>,
               \<lparr>total_count = 1, value' = 1, pool_index_left = - 1, pool_index_right = - 1\<rparr>,
               \<lparr>total_count = 1, value' = 2, pool_index_left = - 1, pool_index_right = - 1\<rparr>]"
  let ?tree' = "[\<lparr>total_count = 2, value' = - 1, pool_index_left = 1, pool_index_right = 0\<rparr>,
         \<lparr>total_count = 2, value' = 0, pool_index_left = - 1, pool_index_right = - 1\<rparr>]"
  let ?pool' = "[\<lparr>total_count = 1, value' = 2, pool_index_left = - 1, pool_index_right = - 1\<rparr>,
         \<lparr>total_count = 1, value' = 1, pool_index_left = - 1, pool_index_right = - 1\<rparr>]"
  have r: "merge_step ?tree [] = Inr (?tree', ?pool')" by code_simp
  have s: "sorted_wrt (\<lambda>a b. total_count a \<ge> total_count b) ?tree" by simp
  have l: "2 \<le> length ?tree" by simp
  from merged_node_precedes_ties [OF r l s] obtain k where
    "k < length ?tree'" "value' (?tree' ! k) = - 1"
    by blast
  then have "\<exists>k<2. value' (?tree' ! k) = - 1"
    by (intro exI [of _ k]) simp
  with r show ?thesis by (rule conjI)
qed

text \<open>
  Claim C8, counterexample to the claim as stated: for the histogram 2 1 1 the two leaves of
  count 1 merge into a node of count 2, which ties with the leaf of symbol 0; the internal
  node is placed at index 0, before the tied leaf, not after it.
\<close>

theorem merged_node_after_ties_counterexample:
  "qsort (make_leaves [2, 1, 1] 1 0) CompareHuffmanTrees =
     [\<lparr>total_count = 2, value' = 0, pool_index_left = - 1, pool_index_right = - 1\<rparr>,
      \<lparr>total_count = 1, value' = 1, pool_index_left = - 1, pool_index_right = - 1\<rparr>,
      \<lparr>total_count = 1, value' = 2, pool_index_left = - 1, pool_index_right = - 1\<rparr>] \<and>
   merge_step (qsort (make_leaves [2, 1, 1] 1 0) CompareHuffmanTrees) [] =
   Inr ([\<lparr>total_count = 2, value' = - 1, pool_index_left = 1, pool_index_right = 0\<rparr>,
         \<lparr>total_count = 2, value' = 0, pool_index_left = - 1, pool_index_right = - 1\<rparr>],
        [\<lparr>total_count = 1, value' = 2, pool_index_left = - 1, pool_index_right = - 1\<rparr>,
         \<lparr>total_count = 1, value' = 1, pool_index_left = - 1, pool_index_right = - 1\<rparr>])"
  by code_simp

section \<open>The merge tree and the bit depths\<close>

lemma weight_pos: "sib_ok t \<Longrightarrow> 1 \<le> weight t"
  by (induction t) auto

lemma kids_le_mono: "kids_le t a \<Longrightarrow> a \<le> b \<Longrightarrow> kids_le t b"
  by (cases t) auto

lemma weight_height:
  "sib_ok t \<Longrightarrow>
   2 ^ (height t div 2) \<le> weight t \<and>
   (\<forall>s. 0 \<le> s \<and> kids_le t s \<longrightarrow> 2 ^ ((height t + 1) div 2) \<le> weight t + s)"
proof (induction t)
  case (Leaf c s)
  then show ?case by simp
next
  case (Node l r)
  let ?hl = "height l" and ?hr = "height r"
  from Node.prems have ok: "sib_ok l" "sib_ok r" "kids_le l (weight r)" "kids_le r (weight l)"
    by simp_all
  note wl = weight_pos [OF ok(1)] and wr = weight_pos [OF ok(2)]
  from Node.IH(1) [OF ok(1)] have pl: "2 ^ (?hl div 2) \<le> weight l"
    and ql: "\<And>s. 0 \<le> s \<Longrightarrow> kids_le l s \<Longrightarrow> 2 ^ ((?hl + 1) div 2) \<le> weight l + s"
    by auto
  from Node.IH(2) [OF ok(2)] have pr: "2 ^ (?hr div 2) \<le> weight r"
    and qr: "\<And>s. 0 \<le> s \<Longrightarrow> kids_le r s \<Longrightarrow> 2 ^ ((?hr + 1) div 2) \<le> weight r + s"
    by auto
  have P: "(2::int) ^ (height (Node l r) div 2) \<le> weight (Node l r)"
  proof (cases "?hl \<le> ?hr")
    case True
    then have "height (Node l r) div 2 = (?hr + 1) div 2" by (simp add: max_def)
    then show ?thesis using qr [of "weight l"] ok(4) wl by simp
  next
    case False
    then have "height (Node l r) div 2 = (?hl + 1) div 2" by (simp add: max_def)
    then show ?thesis using ql [of "weight r"] ok(3) wr by simp
  qed
  have Q: "(2::int) ^ ((height (Node l r) + 1) div 2) \<le> weight (Node l r) + s"
    if "0 \<le> s" "kids_le (Node l r) s" for s
  proof (cases "?hl \<le> ?hr")
    case True
    then have "(height (Node l r) + 1) div 2 = Suc (?hr div 2)" by (simp add: max_def)
    then show ?thesis using pr that wl by simp
  next
    case False
    then have "(height (Node l r) + 1) div 2 = Suc (?hl div 2)" by (simp add: max_def)
    then show ?thesis using pl that wr by simp
  qed
  from P Q show ?case by blast
qed

lemma height_bound:
  assumes "sib_ok t" "weight t \<le> INT_MAX"
  shows "height t < 62"
proof (rule ccontr)
  assume "\<not> height t < 62"
  then have "31 \<le> height t div 2" by simp
  then have "(2::int) ^ 31 \<le> 2 ^ (height t div 2)"
    by (intro power_increasing) simp_all
  also have "\<dots> \<le> weight t" using weight_height [OF assms(1)] by simp
  finally show False using assms(2) by (simp add: INT_MAX_def)
qed

lemma depth_of_le_height: "depth_of t s \<le> height t"
  by (induction t) auto

lemma set_depths_length [simp]: "length (set_depths t bd level) = length bd"
  by (induction t arbitrary: bd level) simp_all

lemma set_depths_nth:
  "distinct (leaves t) \<Longrightarrow> \<forall>s\<in>set (leaves t). s < length bd \<Longrightarrow>
   set_depths t bd level ! i =
     (if i \<in> set (leaves t) then nat ((level + int (depth_of t i)) mod 256) else bd ! i)"
proof (induction t arbitrary: bd level)
  case (Leaf c s)
  then show ?case by (simp add: nth_list_update)
next
  case (Node l r)
  from Node.prems have d: "distinct (leaves l)" "distinct (leaves r)"
    "set (leaves l) \<inter> set (leaves r) = {}" by auto
  have "set_depths (Node l r) bd level ! i =
      (if i \<in> set (leaves r) then nat ((level + 1 + int (depth_of r i)) mod 256)
       else set_depths l bd (level + 1) ! i)"
    using Node.prems d by (simp add: Node.IH(2))
  also have "set_depths l bd (level + 1) ! i =
      (if i \<in> set (leaves l) then nat ((level + 1 + int (depth_of l i)) mod 256) else bd ! i)"
    using Node.prems d by (simp add: Node.IH(1))
  finally show ?case using d(3) by (auto simp: algebra_simps)
qed

lemma kraft_tree:
  "distinct (leaves t) \<Longrightarrow>
   (\<Sum>s\<leftarrow>leaves t. 1 / 2 ^ (d + depth_of t s)) = (1 / 2 ^ d :: real)"
proof (induction t arbitrary: d)
  case (Leaf c s)
  then show ?case by simp
next
  case (Node l r)
  from Node.prems have dl: "distinct (leaves l)" and dr: "distinct (leaves r)"
    and disj: "set (leaves l) \<inter> set (leaves r) = {}" by auto
  have "(\<Sum>s\<leftarrow>leaves l. 1 / 2 ^ (d + depth_of (Node l r) s)) =
        (\<Sum>s\<leftarrow>leaves l. 1 / 2 ^ (Suc d + depth_of l s) :: real)"
    by (intro arg_cong [where f = sum_list] map_cong) simp_all
  moreover have "(\<Sum>s\<leftarrow>leaves r. 1 / 2 ^ (d + depth_of (Node l r) s)) =
        (\<Sum>s\<leftarrow>leaves r. 1 / 2 ^ (Suc d + depth_of r s) :: real)"
    using disj by (intro arg_cong [where f = sum_list] map_cong) auto
  ultimately have "(\<Sum>s\<leftarrow>leaves (Node l r). 1 / 2 ^ (d + depth_of (Node l r) s)) =
      (1 / 2 ^ Suc d + 1 / 2 ^ Suc d :: real)"
    using Node.IH(1) [OF dl, of "Suc d"] Node.IH(2) [OF dr, of "Suc d"] by simp
  then show ?case by simp
qed

lemma tree_at_weight: "tree_at pool n t \<Longrightarrow> total_count n = weight t"
  by (induction rule: tree_at.induct) simp_all

lemma tree_at_append: "tree_at pool n t \<Longrightarrow> tree_at (pool @ xs) n t"
proof (induction rule: tree_at.induct)
  case (leaf n)
  then show ?case by (rule tree_at.leaf)
next
  case (node n l r)
  then show ?case
    by (intro tree_at.node) (simp_all add: nth_append)
qed

lemma SetBitDepths_tree_at:
  "tree_at pool n t \<Longrightarrow> SetBitDepths n pool bd level = Some (set_depths t bd level)"
proof (induction arbitrary: bd level rule: tree_at.induct)
  case (leaf n)
  then show ?case
    by (subst SetBitDepths.simps) simp
next
  case (node n l r)
  then show ?case
    by (subst SetBitDepths.simps) simp
qed

lemma in_set_takeD: "x \<in> set (take k xs) \<Longrightarrow> \<exists>j<k. j < length xs \<and> x = xs ! j"
  by (auto simp: in_set_conv_nth)

lemma in_set_drop_takeD:
  "x \<in> set (drop k (take m xs)) \<Longrightarrow> \<exists>j. k \<le> j \<and> j < m \<and> j < length xs \<and> x = xs ! j"
proof -
  assume "x \<in> set (drop k (take m xs))"
  then obtain i where i: "i < length (drop k (take m xs))" "x = drop k (take m xs) ! i"
    by (auto simp: in_set_conv_nth)
  then have "k + i < m" "k + i < length xs" by simp_all
  moreover from i this have "x = xs ! (k + i)" by simp
  ultimately show ?thesis by (intro exI [of _ "k + i"]) simp
qed

lemma sorted_insert_node:
  fixes xs :: "HuffmanTree list" and N :: HuffmanTree
  assumes s: "sorted_wrt (\<lambda>a b. total_count a \<ge> total_count b) xs"
    and k: "k \<le> m" "m \<le> length xs"
    and before: "\<forall>j<k. total_count N < total_count (xs ! j)"
    and at: "k < m \<longrightarrow> total_count (xs ! k) \<le> total_count N"
  shows "sorted_wrt (\<lambda>a b. total_count a \<ge> total_count b) (take k xs @ N # drop k (take m xs))"
proof -
  let ?R = "\<lambda>a b. total_count a \<ge> total_count (b :: HuffmanTree)"
  have s1: "sorted_wrt ?R (take k xs)"
    using s by (rule sorted_wrt_take)
  have s2: "sorted_wrt ?R (drop k (take m xs))"
    using s by (intro sorted_wrt_drop sorted_wrt_take)
  have after: "total_count b \<le> total_count N" if "b \<in> set (drop k (take m xs))" for b
  proof -
    from in_set_drop_takeD [OF that] obtain j where j: "k \<le> j" "j < m" "j < length xs" "b = xs ! j"
      by auto
    have "total_count (xs ! j) \<le> total_count (xs ! k)"
    proof (cases "j = k")
      case True
      then show ?thesis by simp
    next
      case False
      then show ?thesis using s j by (simp add: sorted_wrt_iff_nth_less)
    qed
    then show ?thesis using at j by simp
  qed
  have bef: "total_count N < total_count a" if "a \<in> set (take k xs)" for a
    using in_set_takeD [OF that] before by auto
  show ?thesis
    using s1 s2 after bef
    by (fastforce simp: sorted_wrt_append dest: order.strict_implies_order)
qed

lemma sum_list_take_drop:
  fixes f :: "'a \<Rightarrow> nat"
  shows "k \<le> m \<Longrightarrow> (\<Sum>t\<leftarrow>take k ts @ x # drop k (take m ts). f t) = (\<Sum>t\<leftarrow>take m ts. f t) + f x"
proof -
  assume "k \<le> m"
  then have "take m ts = take k ts @ drop k (take m ts)"
    by (metis append_take_drop_id min.absorb1 take_take)
  then have "(\<Sum>t\<leftarrow>take m ts. f t) = (\<Sum>t\<leftarrow>take k ts. f t) + (\<Sum>t\<leftarrow>drop k (take m ts). f t)"
    by (metis map_append sum_list_append)
  then show ?thesis by simp
qed

lemma set_take_drop:
  "k \<le> m \<Longrightarrow> set (take k ts @ x # drop k (take m ts)) = insert x (set (take m ts))"
proof -
  assume "k \<le> m"
  then have "take m ts = take k ts @ drop k (take m ts)"
    by (metis append_take_drop_id min.absorb1 take_take)
  then have "set (take m ts) = set (take k ts) \<union> set (drop k (take m ts))"
    by (metis set_append)
  then show ?thesis by auto
qed

lemma split_last_two:
  assumes "2 \<le> length ts"
  shows "ts = take (length ts - 2) ts @ [ts ! (length ts - 2), ts ! (length ts - 1)]"
proof -
  let ?m = "length ts - 2"
  have "drop ?m ts = [ts ! ?m, ts ! (length ts - 1)]"
  proof (rule nth_equalityI)
    show "length (drop ?m ts) = length [ts ! ?m, ts ! (length ts - 1)]"
      using assms by simp
  next
    fix i assume "i < length (drop ?m ts)"
    then have "i < 2" using assms by simp
    then have "i = 0 \<or> i = 1" by auto
    then show "drop ?m ts ! i = [ts ! ?m, ts ! (length ts - 1)] ! i"
      using assms by (auto simp: nth_Cons' Suc_diff_Suc numeral_2_eq_2)
  qed
  then show ?thesis by (metis append_take_drop_id)
qed

lemma merge_step_inv:
  assumes inv: "forest_inv S pool tree ts" and n2: "2 \<le> length tree"
    and st: "merge_step tree pool = Inr (tree', pool')"
  shows "\<exists>ts'. forest_inv S pool' tree' ts' \<and> length tree' + 1 = length tree"
proof -
  define n where "n = length tree"
  define X where "X = tree ! (n - 1)"
  define Y where "Y = tree ! (n - 2)"
  define tX where "tX = ts ! (n - 1)"
  define tY where "tY = ts ! (n - 2)"
  define count where "count = total_count Y + total_count X"
  define k where "k = insertion_point tree (n - 2) count 0"
  define N where "N = \<lparr>total_count = count, value' = - 1,
     pool_index_left = int (length pool) + 1, pool_index_right = int (length pool)\<rparr>"
  define ts' where "ts' = take k ts @ Node tY tX # drop k (take (n - 2) ts)"
  let ?R = "\<lambda>a b. total_count a \<ge> total_count (b :: HuffmanTree)"
  from inv have la: "list_all2 (tree_at pool) tree ts"
    and sorted: "sorted_wrt ?R tree"
    and ok: "\<forall>t\<in>set ts. sib_ok t"
    and kids: "\<forall>t\<in>set ts. \<forall>n\<in>set tree. kids_le t (total_count n)"
    and imax: "\<forall>n\<in>set tree. 0 \<le> pool_index_left n \<longrightarrow> total_count n \<le> INT_MAX"
    and sum: "(\<Sum>t\<leftarrow>ts. length (leaves t)) = card S"
    and un: "(\<Union>t\<in>set ts. set (leaves t)) = S"
    by (simp_all add: forest_inv_def)
  have len: "length ts = n" using la by (simp add: list_all2_lengthD n_def)
  have n2': "2 \<le> n" using n2 by (simp add: n_def)
  have t: "tree' = take k tree @ N # drop k (take (n - 2) tree)"
    and p: "pool' = pool @ [X, Y]" and c: "count \<le> INT_MAX"
    using merge_step_result [OF st]
    by (simp_all add: n_def X_def Y_def count_def k_def N_def)
  from insertion_point_props [of 0 "n - 2" tree count]
  have k: "k \<le> n - 2" and before: "\<forall>j<k. count < total_count (tree ! j)"
    and at: "k < n - 2 \<longrightarrow> total_count (tree ! k) \<le> count"
    by (simp_all add: k_def)
  have memX: "X \<in> set tree" "tX \<in> set ts" and memY: "Y \<in> set tree" "tY \<in> set ts"
    using n2' len by (simp_all add: X_def Y_def tX_def tY_def n_def)
  have aX: "tree_at pool X tX" and aY: "tree_at pool Y tY"
    using la n2' by (simp_all add: X_def Y_def tX_def tY_def list_all2_nthD n_def)
  note wX = tree_at_weight [OF aX] and wY = tree_at_weight [OF aY]
  have okX: "sib_ok tX" and okY: "sib_ok tY" using ok memX memY by simp_all
  note pX = weight_pos [OF okX] and pY = weight_pos [OF okY]
  have tsplit: "ts = take (n - 2) ts @ [tY, tX]"
    using split_last_two [of ts] n2' len by (simp add: tX_def tY_def)
  have set_ts': "set ts' = insert (Node tY tX) (set (take (n - 2) ts))"
    unfolding ts'_def using k by (rule set_take_drop)
  have set_tree': "set tree' = insert N (set (take (n - 2) tree))"
    unfolding t using k by (rule set_take_drop)
  have old_t: "t \<in> set ts" if "t \<in> set (take (n - 2) ts)" for t
    using that by (rule in_set_takeD [THEN exE]) (use len in auto)
  have old_n: "m \<in> set tree \<and> total_count Y \<le> total_count m \<and> total_count X \<le> total_count m"
    if "m \<in> set (take (n - 2) tree)" for m
  proof -
    from in_set_takeD [OF that] obtain j where j: "j < n - 2" "m = tree ! j" by auto
    then have "total_count (tree ! (n - 2)) \<le> total_count (tree ! j)"
      "total_count (tree ! (n - 1)) \<le> total_count (tree ! j)"
      using sorted n2' by (simp_all add: sorted_wrt_iff_nth_less n_def)
    then show ?thesis using j by (simp add: X_def Y_def n_def)
  qed
  \<comment> \<open>the nodes stand for the trees\<close>
  have m: "list_all2 (tree_at pool') tree ts"
    using la unfolding p by (rule list_all2_mono) (rule tree_at_append)
  have new: "tree_at pool' N (Node tY tX)"
  proof (rule tree_at.node)
    show "0 \<le> pool_index_left N" "0 \<le> pool_index_right N" by (simp_all add: N_def)
    show "nat (pool_index_left N) < length pool'" "nat (pool_index_right N) < length pool'"
      by (simp_all add: N_def p)
    have "pool' ! nat (pool_index_left N) = Y"
      by (simp add: N_def p nth_append nat_add_distrib)
    then show "tree_at pool' (pool' ! nat (pool_index_left N)) tY"
      using aY by (simp add: p tree_at_append)
    have "pool' ! nat (pool_index_right N) = X"
      by (simp add: N_def p nth_append)
    then show "tree_at pool' (pool' ! nat (pool_index_right N)) tX"
      using aX by (simp add: p tree_at_append)
    show "total_count N = weight tY + weight tX"
      by (simp add: N_def count_def wX wY)
  qed
  have la': "list_all2 (tree_at pool') tree' ts'"
    unfolding t ts'_def
    by (intro list_all2_appendI list_all2_takeI list_all2_dropI list_all2_Cons [THEN iffD2] conjI m new)
  \<comment> \<open>the array stays sorted\<close>
  have sorted': "sorted_wrt ?R tree'"
    unfolding t using sorted k n2' before at
    by (intro sorted_insert_node) (simp_all add: N_def n_def)
  \<comment> \<open>the order between children and siblings\<close>
  have "kids_le tY (total_count X)" "kids_le tX (total_count Y)"
    using kids memX memY by blast+
  then have okN: "sib_ok (Node tY tX)"
    using okX okY wX wY by simp
  have ok': "\<forall>t\<in>set ts'. sib_ok t"
    using ok okN old_t by (auto simp: set_ts')
  have kids': "\<forall>t\<in>set ts'. \<forall>m\<in>set tree'. kids_le t (total_count m)"
  proof (intro ballI)
    fix t m assume t': "t \<in> set ts'" and m': "m \<in> set tree'"
    show "kids_le t (total_count m)"
    proof (cases "t = Node tY tX")
      case True
      show ?thesis
      proof (cases "m = N")
        case True
        then show ?thesis using \<open>t = Node tY tX\<close> pX pY wX wY by (simp add: N_def count_def)
      next
        case False
        then have "m \<in> set (take (n - 2) tree)" using m' by (simp add: set_tree')
        from old_n [OF this] show ?thesis using \<open>t = Node tY tX\<close> wX wY by simp
      qed
    next
      case False
      then have told: "t \<in> set ts" using t' old_t by (auto simp: set_ts')
      show ?thesis
      proof (cases "m = N")
        case True
        have "kids_le t (total_count X)" using kids told memX by simp
        moreover have "total_count X \<le> total_count N"
          using pY wY by (simp add: N_def count_def)
        ultimately show ?thesis using True by (auto intro: kids_le_mono)
      next
        case False
        then have "m \<in> set (take (n - 2) tree)" using m' by (simp add: set_tree')
        from old_n [OF this] kids told show ?thesis by simp
      qed
    qed
  qed
  have imax': "\<forall>m\<in>set tree'. 0 \<le> pool_index_left m \<longrightarrow> total_count m \<le> INT_MAX"
  proof
    fix m assume "m \<in> set tree'"
    then consider "m = N" | "m \<in> set (take (n - 2) tree)" by (auto simp: set_tree')
    then show "0 \<le> pool_index_left m \<longrightarrow> total_count m \<le> INT_MAX"
    proof cases
      case 1
      then show ?thesis using c by (simp add: N_def)
    next
      case 2
      from old_n [OF this] imax show ?thesis by simp
    qed
  qed
  \<comment> \<open>the leaves\<close>
  have "(\<Sum>t\<leftarrow>ts'. length (leaves t)) =
      (\<Sum>t\<leftarrow>take (n - 2) ts. length (leaves t)) + length (leaves (Node tY tX))"
    unfolding ts'_def using k by (rule sum_list_take_drop)
  also have "\<dots> = (\<Sum>t\<leftarrow>take (n - 2) ts @ [tY, tX]. length (leaves t))"
    by simp
  also have "\<dots> = card S" using sum tsplit by simp
  finally have sum': "(\<Sum>t\<leftarrow>ts'. length (leaves t)) = card S" .
  have "(\<Union>t\<in>set ts'. set (leaves t)) = (\<Union>t\<in>set (take (n - 2) ts @ [tY, tX]). set (leaves t))"
    by (auto simp: set_ts')
  then have un': "(\<Union>t\<in>set ts'. set (leaves t)) = S"
    using un tsplit by simp
  have "length tree' + 1 = length tree"
    unfolding t using k n2' by (simp add: n_def)
  with la' sorted' ok' kids' imax' sum' un' show ?thesis
    by (intro exI [of _ ts']) (simp add: forest_inv_def)
qed

lemma merge_loop_inv:
  "forest_inv S pool tree ts \<Longrightarrow> 1 \<le> length tree \<Longrightarrow> merge_loop tree pool = Inr (tree', pool') \<Longrightarrow>
   \<exists>root t. tree' = [root] \<and> forest_inv S pool' [root] [t]"
proof (induction tree pool arbitrary: ts rule: merge_loop.induct)
  case (1 tree pool)
  show ?case
  proof (cases "1 < length tree")
    case False
    then have "merge_loop tree pool = Inr (tree, pool)"
      by (subst merge_loop.simps) simp
    then have eq: "tree' = tree" "pool' = pool" using "1.prems"(3) by simp_all
    from False "1.prems"(2) have "length tree = 1" by simp
    then obtain root where r: "tree = [root]" by (cases tree) auto
    moreover have "length ts = 1"
      using "1.prems"(1) r by (auto simp: forest_inv_def dest: list_all2_lengthD)
    then obtain t where "ts = [t]" by (cases ts) auto
    ultimately show ?thesis using "1.prems"(1) eq by auto
  next
    case True
    from "1.prems"(3) True obtain tree1 pool1 where
      st: "merge_step tree pool = Inr (tree1, pool1)"
      and rec: "merge_loop tree1 pool1 = Inr (tree', pool')"
      by (subst (asm) merge_loop.simps) (auto split: sum.splits)
    from merge_step_inv [OF "1.prems"(1) _ st] True obtain ts1 where
      inv1: "forest_inv S pool1 tree1 ts1" and len1: "length tree1 + 1 = length tree"
      by auto
    have "1 \<le> length tree1" using len1 True by simp
    from "1.IH" [OF True st refl inv1 this rec] show ?thesis .
  qed
qed

lemma qsort_insert_set [simp]: "set (qsort_insert c x xs) = insert x (set xs)"
  by (induction xs) auto

lemma qsort_insert_length [simp]: "length (qsort_insert c x xs) = Suc (length xs)"
  by (induction xs) auto

lemma qsort_set [simp]: "set (qsort xs c) = set xs"
  by (induction xs) auto

lemma qsort_length [simp]: "length (qsort xs c) = length xs"
  by (induction xs) auto

lemma qsort_insert_sum:
  fixes f :: "'a \<Rightarrow> nat"
  shows "(\<Sum>y\<leftarrow>qsort_insert c x xs. f y) = f x + (\<Sum>y\<leftarrow>xs. f y)"
  by (induction xs) auto

lemma qsort_sum:
  fixes f :: "'a \<Rightarrow> nat"
  shows "(\<Sum>y\<leftarrow>qsort xs c. f y) = (\<Sum>y\<leftarrow>xs. f y)"
  by (induction xs) (auto simp: qsort_insert_sum)

lemma qsort_insert_sorted:
  fixes xs :: "HuffmanTree list"
  assumes "sorted_wrt (\<lambda>a b. total_count a \<ge> total_count b) xs"
  shows "sorted_wrt (\<lambda>a b. total_count a \<ge> total_count b) (qsort_insert CompareHuffmanTrees x xs)"
  using assms
proof (induction xs)
  case Nil
  then show ?case by simp
next
  case (Cons y ys)
  show ?case
  proof (cases "CompareHuffmanTrees x y \<le> 0")
    case True
    then have "total_count y \<le> total_count x"
      by (auto simp: CompareHuffmanTrees_def split: if_splits)
    then show ?thesis using True Cons.prems by fastforce
  next
    case False
    then have "total_count x \<le> total_count y"
      by (auto simp: CompareHuffmanTrees_def split: if_splits)
    then show ?thesis using False Cons by auto
  qed
qed

lemma qsort_sorted:
  "sorted_wrt (\<lambda>a b. total_count a \<ge> total_count b) (qsort xs CompareHuffmanTrees)"
  by (induction xs) (auto intro: qsort_insert_sorted)

lemma make_leaves_props:
  "n \<in> set (make_leaves histogram count_min j) \<Longrightarrow>
   pool_index_left n = - 1 \<and> 0 \<le> value' n \<and> count_min \<le> total_count n"
  by (induction histogram arbitrary: j) (auto split: if_splits)

lemma used_symbols_Cons:
  "used_symbols (h # histogram) =
     (if h \<noteq> 0 then [0] else []) @ map Suc (used_symbols histogram)"
proof -
  have "[0..<length (h # histogram)] = 0 # map Suc [0..<length histogram]"
    by (simp add: upt_conv_Cons map_Suc_upt del: upt_Suc)
  then show ?thesis
    by (simp add: used_symbols_def filter_map comp_def del: upt_Suc)
qed

lemma make_leaves_values:
  "map (\<lambda>n. nat (value' n)) (make_leaves histogram count_min j) =
     map (\<lambda>i. j + i) (used_symbols histogram)"
proof (induction histogram arbitrary: j)
  case Nil
  then show ?case by (simp add: used_symbols_def)
next
  case (Cons h histogram)
  then show ?case by (simp add: used_symbols_Cons comp_def)
qed

lemma used_symbols_distinct: "distinct (used_symbols histogram)"
  by (simp add: used_symbols_def)

lemma used_symbols_set: "set (used_symbols histogram) = {i. i < length histogram \<and> histogram ! i \<noteq> 0}"
  by (auto simp: used_symbols_def)

lemma used_symbols_length: "length (used_symbols histogram) = length (filter (\<lambda>h. h \<noteq> 0) histogram)"
proof (induction histogram)
  case Nil
  then show ?case by (simp add: used_symbols_def)
next
  case (Cons h histogram)
  then show ?case by (simp add: used_symbols_Cons)
qed

lemma initial_inv:
  assumes "1 \<le> count_min"
    and tree0_def: "tree0 = qsort (make_leaves histogram count_min 0) CompareHuffmanTrees"
  shows "forest_inv (set (used_symbols histogram)) [] tree0
           (map (\<lambda>n. Leaf (total_count n) (nat (value' n))) tree0)"
proof -
  let ?f = "\<lambda>n. Leaf (total_count n) (nat (value' n))"
  have props: "pool_index_left n = - 1 \<and> 0 \<le> value' n \<and> count_min \<le> total_count n"
    if "n \<in> set tree0" for n
    using that make_leaves_props [of n histogram count_min 0] by (simp add: tree0_def)
  have "list_all2 (tree_at []) tree0 (map ?f tree0)"
    unfolding list_all2_map2
    by (rule list_all2_same [THEN iffD2]) (use props in \<open>auto intro!: tree_at.leaf\<close>)
  moreover have "sorted_wrt (\<lambda>a b. total_count a \<ge> total_count b) tree0"
    unfolding tree0_def by (rule qsort_sorted)
  moreover have "\<forall>t\<in>set (map ?f tree0). sib_ok t"
    using props assms(1) by fastforce
  moreover have "\<forall>t\<in>set (map ?f tree0). \<forall>n\<in>set tree0. kids_le t (total_count n)"
    by auto
  moreover have "\<forall>n\<in>set tree0. 0 \<le> pool_index_left n \<longrightarrow> total_count n \<le> INT_MAX"
    using props by auto
  moreover have "(\<Sum>t\<leftarrow>map ?f tree0. length (leaves t)) = card (set (used_symbols histogram))"
  proof -
    have "(\<Sum>t\<leftarrow>map ?f tree0. length (leaves t)) = length tree0"
      by (simp add: comp_def sum_list_triv)
    also have "\<dots> = length (map (\<lambda>n. nat (value' n)) (make_leaves histogram count_min 0))"
      by (simp add: tree0_def)
    also have "\<dots> = length (used_symbols histogram)"
      unfolding make_leaves_values by simp
    also have "\<dots> = card (set (used_symbols histogram))"
      by (simp add: distinct_card used_symbols_distinct)
    finally show ?thesis .
  qed
  moreover have "(\<Union>t\<in>set (map ?f tree0). set (leaves t)) = set (used_symbols histogram)"
  proof -
    have "(\<Union>t\<in>set (map ?f tree0). set (leaves t)) = set (map (\<lambda>n. nat (value' n)) tree0)"
      by auto
    also have "\<dots> = set (map (\<lambda>n. nat (value' n)) (make_leaves histogram count_min 0))"
      by (simp add: tree0_def)
    also have "\<dots> = set (used_symbols histogram)"
      unfolding make_leaves_values by simp
    finally show ?thesis .
  qed
  ultimately show ?thesis
    unfolding forest_inv_def by blast
qed

lemma tree_at_Node_left: "tree_at pool n (Node l r) \<Longrightarrow> 0 \<le> pool_index_left n"
  by (cases rule: tree_at.cases) auto

lemma leaves_Leaf_length: "length (leaves t) \<noteq> 1 \<Longrightarrow> \<exists>l r. t = Node l r"
  by (cases t) auto

lemma depth_of_pos: "t = Node l r \<Longrightarrow> 1 \<le> depth_of t s"
  by simp

lemma assign_bit_depths_many:
  assumes a: "assign_bit_depths histogram count_min bit_depths = Some (Inr bit_depths')"
    and cm: "1 \<le> count_min" and len: "length bit_depths = length histogram"
    and many: "1 < length (used_symbols histogram)"
  shows "\<exists>t. distinct (leaves t) \<and> set (leaves t) = set (used_symbols histogram) \<and>
           height t < 62 \<and> (\<exists>l r. t = Node l r) \<and> bit_depths' = set_depths t bit_depths 0"
proof -
  define tree0 where "tree0 = qsort (make_leaves histogram count_min 0) CompareHuffmanTrees"
  define S where "S = set (used_symbols histogram)"
  have l0: "length tree0 = length (used_symbols histogram)"
    using arg_cong [OF make_leaves_values [of histogram count_min 0], of length]
    by (simp add: tree0_def)
  from a many l0 obtain tree' pool' where ml: "merge_loop tree0 [] = Inr (tree', pool')"
    and sb: "SetBitDepths (tree' ! 0) pool' bit_depths 0 = Some bit_depths'"
    by (auto simp: assign_bit_depths_def Let_def tree0_def [symmetric] split: sum.splits)
  have inv0: "forest_inv S [] tree0 (map (\<lambda>n. Leaf (total_count n) (nat (value' n))) tree0)"
    unfolding S_def using cm tree0_def by (rule initial_inv)
  from merge_loop_inv [OF inv0 _ ml] many l0 obtain root t where
    r: "tree' = [root]" and inv: "forest_inv S pool' [root] [t]"
    by auto
  from inv have at: "tree_at pool' root t" and ok: "sib_ok t"
    and imax: "0 \<le> pool_index_left root \<longrightarrow> total_count root \<le> INT_MAX"
    and card: "length (leaves t) = card S" and set: "set (leaves t) = S"
    by (simp_all add: forest_inv_def)
  have d: "distinct (leaves t)"
    using card set by (metis card_distinct)
  have "card S = length (used_symbols histogram)"
    by (simp add: S_def distinct_card used_symbols_distinct)
  then have "length (leaves t) \<noteq> 1" using card many by simp
  then obtain l r where node: "t = Node l r"
    using leaves_Leaf_length by blast
  then have "0 \<le> pool_index_left root" using at tree_at_Node_left by blast
  then have "weight t \<le> INT_MAX" using imax tree_at_weight [OF at] by simp
  then have h: "height t < 62" using ok by (intro height_bound)
  have "bit_depths' = set_depths t bit_depths 0"
    using sb SetBitDepths_tree_at [OF at, of bit_depths 0] by (simp add: r)
  with d set h node show ?thesis unfolding S_def by blast
qed

lemma assign_bit_depths_props:
  assumes a: "assign_bit_depths histogram count_min bit_depths = Some (Inr bit_depths')"
    and cm: "1 \<le> count_min" and len: "length bit_depths = length histogram"
  shows "length bit_depths' = length bit_depths"
    and "\<forall>i<length histogram. histogram ! i = 0 \<longrightarrow> bit_depths' ! i = bit_depths ! i"
    and "\<forall>i<length histogram. histogram ! i \<noteq> 0 \<longrightarrow> 1 \<le> bit_depths' ! i \<and> bit_depths' ! i < 62"
    and "kraft_sum histogram bit_depths' = kraft_value histogram"
proof -
  define tree0 where "tree0 = qsort (make_leaves histogram count_min 0) CompareHuffmanTrees"
  have l0: "length tree0 = length (used_symbols histogram)"
    using arg_cong [OF make_leaves_values [of histogram count_min 0], of length]
    by (simp add: tree0_def)
  have vals: "set (map (\<lambda>n. nat (value' n)) tree0) = set (used_symbols histogram)"
    using arg_cong [OF make_leaves_values [of histogram count_min 0], of set]
    by (simp add: tree0_def)
  have us: "i \<in> set (used_symbols histogram) \<longleftrightarrow> i < length histogram \<and> histogram ! i \<noteq> 0" for i
    by (auto simp: used_symbols_set)
  consider (many) "1 < length (used_symbols histogram)" | (one) "length (used_symbols histogram) = 1"
    | (none) "length (used_symbols histogram) = 0"
    by linarith
  then have "length bit_depths' = length bit_depths \<and>
    (\<forall>i<length histogram. histogram ! i = 0 \<longrightarrow> bit_depths' ! i = bit_depths ! i) \<and>
    (\<forall>i<length histogram. histogram ! i \<noteq> 0 \<longrightarrow> 1 \<le> bit_depths' ! i \<and> bit_depths' ! i < 62) \<and>
    kraft_sum histogram bit_depths' = kraft_value histogram"
  proof cases
    case many
    from assign_bit_depths_many [OF a cm len many] obtain t l r where
      d: "distinct (leaves t)" and s: "set (leaves t) = set (used_symbols histogram)"
      and h: "height t < 62" and node: "t = Node l r"
      and bd: "bit_depths' = set_depths t bit_depths 0"
      by blast
    have inb: "\<forall>s\<in>set (leaves t). s < length bit_depths"
      using s len by (simp add: us)
    have nth: "bit_depths' ! i =
        (if i \<in> set (used_symbols histogram) then depth_of t i else bit_depths ! i)" for i
    proof -
      have "depth_of t i < 256" using depth_of_le_height [of t i] h by simp
      then have "nat (int (depth_of t i) mod 256) = depth_of t i" by simp
      then show ?thesis
        unfolding bd using set_depths_nth [OF d inb, of 0 i] s by simp
    qed
    have dp: "1 \<le> depth_of t i \<and> depth_of t i < 62" for i
    proof -
      have "depth_of t i \<le> height t" by (rule depth_of_le_height)
      moreover have "1 \<le> depth_of t i" unfolding node by simp
      ultimately show ?thesis using h by linarith
    qed
    have "kraft_sum histogram bit_depths' = (\<Sum>i\<leftarrow>used_symbols histogram. 1 / 2 ^ depth_of t i)"
      unfolding kraft_sum_def
      by (intro arg_cong [where f = sum_list] map_cong) (simp_all add: nth)
    also have "\<dots> = (\<Sum>i\<in>set (used_symbols histogram). 1 / 2 ^ depth_of t i)"
      by (rule sum_list_distinct_conv_sum_set) (rule used_symbols_distinct)
    also have "\<dots> = (\<Sum>i\<in>set (leaves t). 1 / 2 ^ depth_of t i)"
      by (simp add: s)
    also have "\<dots> = (\<Sum>i\<leftarrow>leaves t. 1 / 2 ^ (0 + depth_of t i))"
      using sum_list_distinct_conv_sum_set [OF d, of "\<lambda>i. 1 / 2 ^ depth_of t i :: real"] by simp
    also have "\<dots> = 1"
      using kraft_tree [OF d, of 0] by simp
    finally have "kraft_sum histogram bit_depths' = kraft_value histogram"
      using many by (simp add: kraft_value_def)
    then show ?thesis
      using nth dp by (simp add: bd us)
  next
    case one
    then obtain n where t0: "tree0 = [n]" using l0 by (cases tree0) auto
    from one obtain s where u: "used_symbols histogram = [s]"
      by (cases "used_symbols histogram") auto
    have sv: "nat (value' n) = s" using vals by (simp add: t0 u)
    have s: "s < length histogram" "histogram ! s \<noteq> 0" "\<forall>i. i \<noteq> s \<and> i < length histogram \<longrightarrow> histogram ! i = 0"
      using us [of s] us u by auto
    have bd: "bit_depths' = bit_depths[s := 1]"
      using a one l0 sv by (simp add: assign_bit_depths_def Let_def tree0_def [symmetric] t0)
    have "kraft_sum histogram bit_depths' = kraft_value histogram"
      using one s(1) len by (simp add: kraft_sum_def kraft_value_def u bd)
    then show ?thesis
      using s len by (auto simp: bd nth_list_update)
  next
    case none
    then have bd: "bit_depths' = bit_depths"
      using a l0 by (simp add: assign_bit_depths_def Let_def tree0_def [symmetric])
    have "\<forall>i<length histogram. histogram ! i = 0"
      using none us by (metis length_0_conv empty_iff empty_set)
    then show ?thesis
      using none by (simp add: bd kraft_sum_def kraft_value_def)
  qed
  then show "length bit_depths' = length bit_depths"
    and "\<forall>i<length histogram. histogram ! i = 0 \<longrightarrow> bit_depths' ! i = bit_depths ! i"
    and "\<forall>i<length histogram. histogram ! i \<noteq> 0 \<longrightarrow> 1 \<le> bit_depths' ! i \<and> bit_depths' ! i < 62"
    and "kraft_sum histogram bit_depths' = kraft_value histogram"
    by simp_all
qed

lemma GenerateOptimalTree_loop_props:
  "GenerateOptimalTree_loop histogram tree_depth_limit bit_depths count_min = Some (Inr bit_depths') \<Longrightarrow>
   1 \<le> count_min \<Longrightarrow> length bit_depths = length histogram \<Longrightarrow>
   (\<forall>i<length histogram. histogram ! i = 0 \<longrightarrow> bit_depths' ! i = bit_depths ! i) \<and>
   (\<forall>i<length histogram. histogram ! i \<noteq> 0 \<longrightarrow> 1 \<le> bit_depths' ! i \<and> bit_depths' ! i < 62) \<and>
   kraft_sum histogram bit_depths' = kraft_value histogram"
proof (induction histogram tree_depth_limit bit_depths count_min
    rule: GenerateOptimalTree_loop.induct)
  case (1 histogram tree_depth_limit bit_depths count_min)
  from "1.prems"(1) obtain bd where bd: "assign_bit_depths histogram count_min bit_depths = Some (Inr bd)"
    by (subst (asm) GenerateOptimalTree_loop.simps) (auto split: option.splits sum.splits)
  note p = assign_bit_depths_props [OF bd "1.prems"(2,3)]
  show ?case
  proof (cases "int (max_depth bd (length histogram)) \<le> tree_depth_limit")
    case True
    then have "bit_depths' = bd"
      using "1.prems"(1) bd by (subst (asm) GenerateOptimalTree_loop.simps) simp
    then show ?thesis using p by simp
  next
    case False
    then have ok: "\<not> (count_min < 1 \<or> INT_MAX < count_min * 2)"
      and rec: "GenerateOptimalTree_loop histogram tree_depth_limit bd (count_min * 2) = Some (Inr bit_depths')"
      using "1.prems"(1) bd by (subst (asm) GenerateOptimalTree_loop.simps, simp split: if_splits)+
    have "1 \<le> count_min * 2" using "1.prems"(2) by simp
    from "1.IH" [OF bd refl False ok rec this] p(1) "1.prems"(3) p(2)
    show ?thesis by simp
  qed
qed





text \<open>\<^verbatim>\<open>GenerateOptimalTree\<close> returns for every input: the recursion of \<^verbatim>\<open>SetBitDepths\<close> ends on
  the pool that the merge loop builds.\<close>

lemma assign_bit_depths_returns:
  assumes "1 \<le> count_min"
  shows "\<exists>r. assign_bit_depths histogram count_min bit_depths = Some r"
proof -
  define tree0 where "tree0 = qsort (make_leaves histogram count_min 0) CompareHuffmanTrees"
  show ?thesis
  proof (cases "1 < length tree0")
    case False
    then show ?thesis
      by (simp add: assign_bit_depths_def Let_def tree0_def [symmetric])
  next
    case True
    show ?thesis
    proof (cases "merge_loop tree0 []")
      case (Inl e)
      then show ?thesis using True
        by (simp add: assign_bit_depths_def Let_def tree0_def [symmetric])
    next
      case (Inr p)
      obtain tree' pool' where p: "p = (tree', pool')" by (cases p)
      have inv0: "forest_inv (set (used_symbols histogram)) [] tree0
          (map (\<lambda>n. Leaf (total_count n) (nat (value' n))) tree0)"
        using assms tree0_def by (rule initial_inv)
      from merge_loop_inv [OF inv0 _ Inr [unfolded p]] True obtain root t where
        "tree' = [root]" "forest_inv (set (used_symbols histogram)) pool' [root] [t]"
        by auto
      then have "SetBitDepths (tree' ! 0) pool' bit_depths 0 = Some (set_depths t bit_depths 0)"
        by (simp add: forest_inv_def SetBitDepths_tree_at)
      then show ?thesis using True Inr p
        by (simp add: assign_bit_depths_def Let_def tree0_def [symmetric])
    qed
  qed
qed

lemma GenerateOptimalTree_loop_returns:
  "1 \<le> count_min \<Longrightarrow>
   \<exists>r. GenerateOptimalTree_loop histogram tree_depth_limit bit_depths count_min = Some r"
proof (induction histogram tree_depth_limit bit_depths count_min
    rule: GenerateOptimalTree_loop.induct)
  case (1 histogram tree_depth_limit bit_depths count_min)
  from assign_bit_depths_returns [OF "1.prems"] obtain r where
    r: "assign_bit_depths histogram count_min bit_depths = Some r" by blast
  show ?case
  proof (cases r)
    case (Inl e)
    then show ?thesis using r by (subst GenerateOptimalTree_loop.simps) simp
  next
    case (Inr bd)
    show ?thesis
    proof (cases "int (max_depth bd (length histogram)) \<le> tree_depth_limit \<or>
        count_min < 1 \<or> INT_MAX < count_min * 2")
      case True
      then show ?thesis using r Inr by (subst GenerateOptimalTree_loop.simps) auto
    next
      case False
      then have "\<exists>r. GenerateOptimalTree_loop histogram tree_depth_limit bd (count_min * 2) = Some r"
        using "1.prems" r Inr by (intro "1.IH") auto
      then show ?thesis using r Inr False by (subst GenerateOptimalTree_loop.simps) auto
    qed
  qed
qed

lemma GenerateOptimalTree_returns:
  "\<exists>r. GenerateOptimalTree alloc histogram tree_depth_limit bit_depths = Some r"
  using GenerateOptimalTree_loop_returns [of 1 histogram tree_depth_limit bit_depths]
  by (simp add: GenerateOptimalTree_def Let_def)

subsection \<open>The claims about the Kraft sum and the used symbols\<close>

text \<open>
  Claim C3. When \<^verbatim>\<open>GenerateOptimalTree\<close> returns successfully, the sum of \<open>2 ^ - code_length\<close>
  over the symbols of non-zero count is 1 if there is more than one such symbol, and it is
  at most 1 for every histogram.
\<close>

theorem kraft_equality:
  assumes "GenerateOptimalTree alloc histogram tree_depth_limit bit_depths = Some (Inr bit_depths')"
    "length bit_depths = length histogram"
  shows "(1 < length (used_symbols histogram) \<longrightarrow> kraft_sum histogram bit_depths' = 1) \<and>
         kraft_sum histogram bit_depths' \<le> 1"
proof -
  from assms(1) have loop:
    "GenerateOptimalTree_loop histogram tree_depth_limit bit_depths 1 = Some (Inr bit_depths')"
    by (auto simp: GenerateOptimalTree_def Let_def split: if_splits)
  from GenerateOptimalTree_loop_props [OF loop _ assms(2)]
  have "kraft_sum histogram bit_depths' = kraft_value histogram" by simp
  then show ?thesis by (simp add: kraft_value_def)
qed

text \<open>
  Claim C3, witness: the histogram 1 2 4 0 8 16 32 with the limit 4, with the code lengths
  4 4 4 0 4 2 1.
\<close>

theorem kraft_equality_witness:
  "GenerateOptimalTree alloc_succeeds [1, 2, 4, 0, 8, 16, 32] 4 (replicate 7 0) =
     Some (Inr [4, 4, 4, 0, 4, 2, 1]) \<and>
   kraft_sum [1, 2, 4, 0, 8, 16, 32] [4, 4, 4, 0, 4, 2, 1] = 1"
proof -
  have r: "GenerateOptimalTree alloc_succeeds [1, 2, 4, 0, 8, 16, 32] 4 (replicate 7 0) =
     Some (Inr [4, 4, 4, 0, 4, 2, 1])"
    by code_simp
  have u: "used_symbols [1, 2, 4, 0, 8, 16, 32] = [0, 1, 2, 4, 5, 6]"
    by code_simp
  from kraft_equality [OF r] u r show ?thesis by simp
qed




end
